theory Spec2Isabelle
  imports Complex_Main
begin

section \<open>The node store\<close>

text \<open>
  The engine of \<^verbatim>\<open>main.cpp\<close> works on \<^verbatim>\<open>std::shared_ptr<Value>\<close> handles. Two handles
  are the same node exactly when they hold the same pointer, so a node is modelled by its
  address in an explicit store: the store is the list of all nodes allocated so far, and the
  address of a node is its index. \<^verbatim>\<open>std::make_shared<Value>\<close> appends a node and returns its
  fresh address.

  The scalar type \<^verbatim>\<open>double\<close> is the type parameter \<open>'a\<close>. The definitions use only the
  symbols of arithmetic, and a theorem that needs a law of arithmetic names the class that
  provides it (or is stated at type \<open>real\<close>); a theorem stated for every \<open>'a\<close> depends on
  no law of arithmetic at all, so it holds of arithmetic that rounds. In particular the
  accumulation of gradients is stated as the code performs it, one \<^verbatim>\<open>+=\<close> after the other
  from left to right. A theorem over a ring or over \<open>real\<close> names only numbers (small
  integers and halves) on which the arithmetic of \<^verbatim>\<open>double\<close> is exact. The functions of the C math
  library (\<^verbatim>\<open>std::pow\<close>, \<^verbatim>\<open>std::exp\<close>, \<^verbatim>\<open>std::tanh\<close>, \<^verbatim>\<open>std::to_string\<close>) are not
  part of the repository; they are the fields of the parameter \<open>lib\<close>.
\<close>

record 'a libm =
  m_pow :: "'a \<Rightarrow> 'a \<Rightarrow> 'a"
  m_exp :: "'a \<Rightarrow> 'a"
  m_tanh :: "'a \<Rightarrow> 'a"
  m_to_string :: "'a \<Rightarrow> string"

text \<open>
  The closure stored in \<^verbatim>\<open>_backward\<close>, one constructor per lambda of the source, holding
  what the lambda captures, in the order of its capture list: \<^verbatim>\<open>[](){}\<close>,
  \<^verbatim>\<open>[self, other, out]\<close> of \<^verbatim>\<open>operator+\<close> and of \<^verbatim>\<open>operator*\<close>,
  \<^verbatim>\<open>[self, exponent, out]\<close> of \<^verbatim>\<open>pow\<close>, \<^verbatim>\<open>[self, out]\<close> of \<^verbatim>\<open>exp\<close> and
  \<^verbatim>\<open>[self, data, out]\<close> of \<^verbatim>\<open>tanh\<close>.
\<close>

datatype 'a closure =
    Noop
  | AddBackward nat nat nat
  | MulBackward nat nat nat
  | PowBackward nat 'a nat
  | ExpBackward nat nat
  | TanhBackward nat 'a nat

text \<open>
  \<^verbatim>\<open>class Value\<close>; the fields \<^verbatim>\<open>_backward\<close>, \<^verbatim>\<open>_prev\<close> and \<^verbatim>\<open>_op\<close> are
  \<open>backward_fn\<close>, \<open>prev\<close> and \<open>op\<close>.
\<close>

record 'a Value =
  data :: 'a
  grad :: 'a
  backward_fn :: "'a closure"
  prev :: "nat list"
  op :: string
  label :: string

type_synonym 'a heap = "'a Value list"

text \<open>The constructor \<^verbatim>\<open>Value(val, children, op, lbl)\<close>.\<close>

definition Value_init :: "'a::zero \<Rightarrow> nat list \<Rightarrow> string \<Rightarrow> string \<Rightarrow> 'a Value" where
  "Value_init val children opn lbl =
     \<lparr>data = val, grad = 0, backward_fn = Noop, prev = children, op = opn, label = lbl\<rparr>"

definition make_shared :: "'a Value \<Rightarrow> 'a heap \<Rightarrow> nat \<times> 'a heap" where
  "make_shared n h = (length h, h @ [n])"

text \<open>The assignment \<^verbatim>\<open>out->_backward = ...\<close> and the update \<^verbatim>\<open>p->grad += d\<close>.\<close>

definition set_backward :: "nat \<Rightarrow> 'a closure \<Rightarrow> 'a heap \<Rightarrow> 'a heap" where
  "set_backward out c h = h[out := (h ! out)\<lparr>backward_fn := c\<rparr>]"

definition add_grad :: "nat \<Rightarrow> 'a::plus \<Rightarrow> 'a heap \<Rightarrow> 'a heap" where
  "add_grad p d h = h[p := (h ! p)\<lparr>grad := grad (h ! p) + d\<rparr>]"

section \<open>Operation builders\<close>

text \<open>\<^verbatim>\<open>std::make_shared<Value>(val)\<close>: a leaf.\<close>

definition const_node :: "'a::zero \<Rightarrow> 'a heap \<Rightarrow> nat \<times> 'a heap" where
  "const_node val h = make_shared (Value_init val [] [] []) h"

text \<open>\<^verbatim>\<open>operator+(shared_ptr, shared_ptr)\<close> and its two scalar overloads.\<close>

definition add :: "nat \<Rightarrow> nat \<Rightarrow> ('a::{zero,plus}) heap \<Rightarrow> nat \<times> 'a heap" where
  "add self other h =
     (case make_shared (Value_init (data (h ! self) + data (h ! other)) [self, other] ''+'' []) h of
        (out, h1) \<Rightarrow> (out, set_backward out (AddBackward self other out) h1))"

definition add_nd :: "nat \<Rightarrow> 'a \<Rightarrow> ('a::{zero,plus}) heap \<Rightarrow> nat \<times> 'a heap" where
  "add_nd self other h = (case const_node other h of (other_val, h1) \<Rightarrow> add self other_val h1)"

definition add_dn :: "'a \<Rightarrow> nat \<Rightarrow> ('a::{zero,plus}) heap \<Rightarrow> nat \<times> 'a heap" where
  "add_dn self_val other h = (case const_node self_val h of (self, h1) \<Rightarrow> add self other h1)"

text \<open>\<^verbatim>\<open>operator*(shared_ptr, shared_ptr)\<close> and its two scalar overloads.\<close>

definition mul :: "nat \<Rightarrow> nat \<Rightarrow> ('a::{zero,times}) heap \<Rightarrow> nat \<times> 'a heap" where
  "mul self other h =
     (case make_shared (Value_init (data (h ! self) * data (h ! other)) [self, other] ''*'' []) h of
        (out, h1) \<Rightarrow> (out, set_backward out (MulBackward self other out) h1))"

definition mul_nd :: "nat \<Rightarrow> 'a \<Rightarrow> ('a::{zero,times}) heap \<Rightarrow> nat \<times> 'a heap" where
  "mul_nd self other h = (case const_node other h of (other_val, h1) \<Rightarrow> mul self other_val h1)"

definition mul_dn :: "'a \<Rightarrow> nat \<Rightarrow> ('a::{zero,times}) heap \<Rightarrow> nat \<times> 'a heap" where
  "mul_dn self other h = (case const_node self h of (self_val, h1) \<Rightarrow> mul self_val other h1)"

text \<open>\<^verbatim>\<open>pow(shared_ptr, double)\<close>.\<close>

definition pow :: "'a libm \<Rightarrow> nat \<Rightarrow> 'a \<Rightarrow> ('a::zero) heap \<Rightarrow> nat \<times> 'a heap" where
  "pow lib self exponent h =
     (case make_shared
             (Value_init (m_pow lib (data (h ! self)) exponent) [self]
                (''**'' @ m_to_string lib exponent) []) h of
        (out, h1) \<Rightarrow> (out, set_backward out (PowBackward self exponent out) h1))"

text \<open>
  The three overloads of \<^verbatim>\<open>operator/\<close>. The literal \<^verbatim>\<open>-1\<close> is converted to \<^verbatim>\<open>double\<close>
  at the call of \<^verbatim>\<open>pow\<close>.
\<close>

definition div_nn ::
  "'a libm \<Rightarrow> nat \<Rightarrow> nat \<Rightarrow> ('a::{zero,one,uminus,times}) heap \<Rightarrow> nat \<times> 'a heap" where
  "div_nn lib self other h = (case pow lib other (- 1) h of (p, h1) \<Rightarrow> mul self p h1)"

definition div_nd :: "nat \<Rightarrow> 'a \<Rightarrow> ('a::{zero,one,times,inverse}) heap \<Rightarrow> nat \<times> 'a heap" where
  "div_nd self other h = mul_nd self (1 / other) h"

definition div_dn ::
  "'a libm \<Rightarrow> 'a \<Rightarrow> nat \<Rightarrow> ('a::{zero,one,uminus,times}) heap \<Rightarrow> nat \<times> 'a heap" where
  "div_dn lib self other h =
     (case const_node self h of (self_val, h1) \<Rightarrow>
        (case pow lib other (- 1) h1 of (p, h2) \<Rightarrow> mul self_val p h2))"

text \<open>Unary \<^verbatim>\<open>operator-\<close> and the three overloads of binary \<^verbatim>\<open>operator-\<close>.\<close>

definition neg :: "nat \<Rightarrow> ('a::{zero,one,uminus,times}) heap \<Rightarrow> nat \<times> 'a heap" where
  "neg self h = mul_nd self (- 1) h"

definition sub_nn :: "nat \<Rightarrow> nat \<Rightarrow> ('a::{zero,one,uminus,plus,times}) heap \<Rightarrow> nat \<times> 'a heap" where
  "sub_nn self other h = (case neg other h of (n, h1) \<Rightarrow> add self n h1)"

definition sub_nd :: "nat \<Rightarrow> 'a \<Rightarrow> ('a::{zero,one,uminus,plus,times}) heap \<Rightarrow> nat \<times> 'a heap" where
  "sub_nd self other h =
     (case const_node other h of (other_val, h1) \<Rightarrow>
        (case neg other_val h1 of (n, h2) \<Rightarrow> add self n h2))"

definition sub_dn :: "'a \<Rightarrow> nat \<Rightarrow> ('a::{zero,one,uminus,plus,times}) heap \<Rightarrow> nat \<times> 'a heap" where
  "sub_dn self other h =
     (case const_node self h of (self_val, h1) \<Rightarrow>
        (case neg other h1 of (n, h2) \<Rightarrow> add self_val n h2))"

text \<open>\<^verbatim>\<open>exp(shared_ptr)\<close> and \<^verbatim>\<open>tanh(shared_ptr)\<close>.\<close>

definition exp_node :: "'a libm \<Rightarrow> nat \<Rightarrow> ('a::zero) heap \<Rightarrow> nat \<times> 'a heap" where
  "exp_node lib self h =
     (case make_shared (Value_init (m_exp lib (data (h ! self))) [self] ''exp'' []) h of
        (out, h1) \<Rightarrow> (out, set_backward out (ExpBackward self out) h1))"

definition tanh_node :: "'a libm \<Rightarrow> nat \<Rightarrow> ('a::zero) heap \<Rightarrow> nat \<times> 'a heap" where
  "tanh_node lib self h =
     (case m_tanh lib (data (h ! self)) of d \<Rightarrow>
        (case make_shared (Value_init d [self] ''tanh'' []) h of
           (out, h1) \<Rightarrow> (out, set_backward out (TanhBackward self d out) h1)))"

section \<open>The backward engine\<close>

text \<open>
  Calling a stored closure. Each lambda body is a sequence of \<^verbatim>\<open>+=\<close> statements; the second
  statement of a binary rule reads the store the first one has written.
\<close>

fun call :: "'a libm \<Rightarrow> 'a closure \<Rightarrow> ('a::{one,plus,minus,times}) heap \<Rightarrow> 'a heap" where
  "call lib Noop h = h"
| "call lib (AddBackward self other out) h =
     (let h1 = add_grad self (1 * grad (h ! out)) h
      in add_grad other (1 * grad (h1 ! out)) h1)"
| "call lib (MulBackward self other out) h =
     (let h1 = add_grad self (data (h ! other) * grad (h ! out)) h
      in add_grad other (data (h1 ! self) * grad (h1 ! out)) h1)"
| "call lib (PowBackward self exponent out) h =
     (let derivative = exponent * m_pow lib (data (h ! self)) (exponent - 1)
      in add_grad self (derivative * grad (h ! out)) h)"
| "call lib (ExpBackward self out) h =
     add_grad self (data (h ! out) * grad (h ! out)) h"
| "call lib (TanhBackward self d out) h =
     add_grad self ((1 - d * d) * grad (h ! out)) h"

text \<open>
  The recursive lambda \<^verbatim>\<open>build_topo\<close> of \<^verbatim>\<open>Value::backward\<close>, threading the two vectors
  \<^verbatim>\<open>visited\<close> and \<^verbatim>\<open>topo\<close> it captures by reference; \<open>build_topo_children\<close> is its loop
  over \<^verbatim>\<open>v->_prev\<close>. The first argument bounds the depth of the recursion: a call that
  would nest deeper returns \<open>None\<close>.
\<close>

fun build_topo ::
    "nat \<Rightarrow> 'a heap \<Rightarrow> nat \<Rightarrow> nat list \<times> nat list \<Rightarrow> (nat list \<times> nat list) option"
  and build_topo_children ::
    "nat \<Rightarrow> 'a heap \<Rightarrow> nat list \<Rightarrow> nat list \<times> nat list \<Rightarrow> (nat list \<times> nat list) option"
where
  "build_topo 0 h v s = None"
| "build_topo (Suc n) h v (visited, topo) =
     (if v \<in> set visited then Some (visited, topo)
      else (case build_topo_children n h (prev (h ! v)) (visited @ [v], topo) of
              None \<Rightarrow> None
            | Some (visited', topo') \<Rightarrow> Some (visited', topo' @ [v])))"
| "build_topo_children n h [] s = Some s"
| "build_topo_children n h (child # children) s =
     (case build_topo n h child s of
        None \<Rightarrow> None
      | Some s' \<Rightarrow> build_topo_children n h children s')"

text \<open>The call \<^verbatim>\<open>v->_backward()\<close> of the closure stored in the node at address \<open>v\<close>.\<close>

definition invoke :: "'a libm \<Rightarrow> nat \<Rightarrow> ('a::{one,plus,minus,times}) heap \<Rightarrow> 'a heap" where
  "invoke lib v h = call lib (backward_fn (h ! v)) h"

text \<open>The loop \<^verbatim>\<open>for (auto it = topo.rbegin(); it != topo.rend(); ++it) (*it)->_backward();\<close>\<close>

definition replay :: "'a libm \<Rightarrow> nat list \<Rightarrow> ('a::{one,plus,minus,times}) heap \<Rightarrow> 'a heap" where
  "replay lib topo h = fold (invoke lib) (rev topo) h"

text \<open>
  \<^verbatim>\<open>Value::backward\<close>, called on the node at address \<open>v\<close>. The depth allowed to
  \<open>build_topo\<close> is one more than the number of nodes of the store.
\<close>

definition backward :: "'a libm \<Rightarrow> nat \<Rightarrow> ('a::{one,plus,minus,times}) heap \<Rightarrow> 'a heap option" where
  "backward lib v h =
     (case build_topo (Suc (length h)) h v ([], []) of
        None \<Rightarrow> None
      | Some (visited, topo) \<Rightarrow> Some (replay lib topo (h[v := (h ! v)\<lparr>grad := 1\<rparr>])))"

section \<open>Stores the builders produce\<close>

text \<open>
  A \<^verbatim>\<open>shared_ptr\<close> never dangles: in a closed store every parent address is allocated.
\<close>

definition closed :: "'a heap \<Rightarrow> bool" where
  "closed h = list_all (\<lambda>n. list_all (\<lambda>p. p < length h) (prev n)) h"

text \<open>
  The constructor takes its \<^verbatim>\<open>children\<close> as existing handles, so every parent of a node
  was allocated before the node. Every store the builders produce is ordered in this way.
\<close>

definition ordered :: "'a heap \<Rightarrow> bool" where
  "ordered h = list_all (\<lambda>(i, n). list_all (\<lambda>p. p < i) (prev n)) (enumerate 0 h)"

text \<open>
  The closure of the node at address \<open>i\<close> is one a builder installs there: the no-op of the
  constructor, or a lambda that captured the node itself as \<^verbatim>\<open>out\<close> and the node's parents
  as its operands (and, for \<^verbatim>\<open>tanh\<close>, the node's own value as \<^verbatim>\<open>data\<close>).
\<close>

definition installed :: "nat \<Rightarrow> 'a Value \<Rightarrow> bool" where
  "installed i n =
     (case backward_fn n of
        Noop \<Rightarrow> True
      | AddBackward self other out \<Rightarrow> out = i \<and> prev n = [self, other]
      | MulBackward self other out \<Rightarrow> out = i \<and> prev n = [self, other]
      | PowBackward self exponent out \<Rightarrow> out = i \<and> prev n = [self]
      | ExpBackward self out \<Rightarrow> out = i \<and> prev n = [self]
      | TanhBackward self d out \<Rightarrow> out = i \<and> prev n = [self] \<and> d = data n)"

definition rules_ok :: "'a heap \<Rightarrow> bool" where
  "rules_ok h = list_all (\<lambda>(i, n). installed i n) (enumerate 0 h)"

text \<open>Reachability from \<open>v\<close> along \<^verbatim>\<open>_prev\<close>.\<close>

inductive reachable :: "'a heap \<Rightarrow> nat \<Rightarrow> nat \<Rightarrow> bool" for h :: "'a heap" and v :: nat where
  reachable_self: "reachable h v v"
| reachable_parent: "reachable h v u \<Longrightarrow> p \<in> set (prev (h ! u)) \<Longrightarrow> reachable h v p"

text \<open>
  A directed acyclic graph: a closed store in which no node is reachable from one of its own
  parents. An ordered store is one; so is any other numbering of the same graph.
\<close>

definition dag :: "'a heap \<Rightarrow> bool" where
  "dag h = (closed h \<and> (\<forall>u<length h. \<forall>p\<in>set (prev (h ! u)). \<not> reachable h p u))"

text \<open>Two nodes that agree on every field except \<^verbatim>\<open>grad\<close>.\<close>

definition same_but_grad :: "'a Value \<Rightarrow> 'a Value \<Rightarrow> bool" where
  "same_but_grad n n' =
     (data n' = data n \<and> backward_fn n' = backward_fn n \<and> prev n' = prev n \<and>
      op n' = op n \<and> label n' = label n)"

text \<open>
  What a builder may do to the store \<open>h\<close>: leave every node of \<open>h\<close> as it is, allocate
  behind it, and return one of the addresses it allocated.
\<close>

definition allocates :: "'a heap \<Rightarrow> nat \<times> 'a heap \<Rightarrow> bool" where
  "allocates h r = (take (length h) (snd r) = h \<and> length h \<le> fst r \<and> fst r < length (snd r))"

text \<open>
  What one call of the closure \<open>c\<close> in the store \<open>h\<close> adds to \<open>x.grad\<close>: the right-hand
  side of each \<^verbatim>\<open>+=\<close> statement of the lambda whose target is \<open>x\<close>, in the order of the
  statements. The code adds them to \<open>x.grad\<close> one at a time, which is
  \<open>foldl (+) (grad (h ! x))\<close> of this list; no law of addition enters.
\<close>

fun contributions ::
  "'a libm \<Rightarrow> 'a closure \<Rightarrow> ('a::{one,plus,minus,times}) heap \<Rightarrow> nat \<Rightarrow> 'a list"
where
  "contributions lib Noop h x = []"
| "contributions lib (AddBackward self other out) h x =
     (if self = x then [1 * grad (h ! out)] else []) @
     (if other = x then [1 * grad (h ! out)] else [])"
| "contributions lib (MulBackward self other out) h x =
     (if self = x then [data (h ! other) * grad (h ! out)] else []) @
     (if other = x then [data (h ! self) * grad (h ! out)] else [])"
| "contributions lib (PowBackward self exponent out) h x =
     (if self = x
      then [exponent * m_pow lib (data (h ! self)) (exponent - 1) * grad (h ! out)] else [])"
| "contributions lib (ExpBackward self out) h x =
     (if self = x then [data (h ! out) * grad (h ! out)] else [])"
| "contributions lib (TanhBackward self d out) h x =
     (if self = x then [(1 - d * d) * grad (h ! out)] else [])"

text \<open>The order \<^verbatim>\<open>topo\<close> that \<^verbatim>\<open>backward\<close> builds for the node \<open>v\<close>.\<close>

definition topo_order :: "'a heap \<Rightarrow> nat \<Rightarrow> nat list option" where
  "topo_order h v = map_option snd (build_topo (Suc (length h)) h v ([], []))"

text \<open>
  How a call of \<^verbatim>\<open>build_topo\<close> changes the pair of \<^verbatim>\<open>visited\<close> and \<^verbatim>\<open>topo\<close>: both
  grow at the end, by the same nodes, each of them new and added once.
\<close>

definition extends :: "nat list \<times> nat list \<Rightarrow> nat list \<times> nat list \<Rightarrow> bool" where
  "extends s s' =
     (\<exists>nv nt. fst s' = fst s @ nv \<and> snd s' = snd s @ nt \<and> set nv = set nt \<and>
        distinct nv \<and> distinct nt \<and> set nv \<inter> set (fst s) = {})"

text \<open>
  Every node of the order stands after all of its parents; read from the end, as the replay
  does, every node stands before all of its parents and is met once.
\<close>

definition parents_first :: "'a heap \<Rightarrow> nat list \<Rightarrow> bool" where
  "parents_first h topo = (\<forall>i<length topo. set (prev (h ! (topo ! i))) \<subseteq> set (take i topo))"

fun children_first :: "'a heap \<Rightarrow> nat list \<Rightarrow> bool" where
  "children_first h [] = True"
| "children_first h (c # cs) =
     (set (prev (h ! c)) \<subseteq> set cs \<and> c \<notin> set cs \<and> children_first h cs)"

section \<open>The builders as the specification words them\<close>

text \<open>
  \<open>negate(x)\<close> is \<open>multiply(x, constant(-1))\<close>, \<open>subtract(x, y)\<close> is \<open>add(x, negate(y))\<close>
  and \<open>divide(x, y)\<close> is \<open>multiply(x, power(y, -1))\<close>.
\<close>

definition negate_spec :: "nat \<Rightarrow> ('a::{zero,one,uminus,times}) heap \<Rightarrow> nat \<times> 'a heap" where
  "negate_spec x h = (case const_node (- 1) h of (k, h1) \<Rightarrow> mul x k h1)"

definition subtract_spec ::
  "nat \<Rightarrow> nat \<Rightarrow> ('a::{zero,one,uminus,plus,times}) heap \<Rightarrow> nat \<times> 'a heap" where
  "subtract_spec x y h = (case negate_spec y h of (n, h1) \<Rightarrow> add x n h1)"

definition divide_spec ::
  "'a libm \<Rightarrow> nat \<Rightarrow> nat \<Rightarrow> ('a::{zero,one,uminus,times}) heap \<Rightarrow> nat \<times> 'a heap" where
  "divide_spec lib x y h = (case pow lib y (- 1) h of (p, h1) \<Rightarrow> mul x p h1)"

text \<open>
  Promotion of a raw scalar: \<open>constant(scalar)\<close> first, then the builder on two nodes, with
  the fresh leaf as its right or as its left operand.
\<close>

definition promote_right ::
  "(nat \<Rightarrow> nat \<Rightarrow> 'a heap \<Rightarrow> nat \<times> 'a heap) \<Rightarrow> nat \<Rightarrow> 'a::zero \<Rightarrow> 'a heap \<Rightarrow> nat \<times> 'a heap" where
  "promote_right builder x scalar h = (case const_node scalar h of (k, h1) \<Rightarrow> builder x k h1)"

definition promote_left ::
  "(nat \<Rightarrow> nat \<Rightarrow> 'a heap \<Rightarrow> nat \<times> 'a heap) \<Rightarrow> 'a::zero \<Rightarrow> nat \<Rightarrow> 'a heap \<Rightarrow> nat \<times> 'a heap" where
  "promote_left builder scalar x h = (case const_node scalar h of (k, h1) \<Rightarrow> builder k x h1)"

text \<open>
  An instance of the C math library at type \<open>real\<close>, for evaluating fixtures: the
  mathematical functions (\<open>powr\<close> agrees with \<^verbatim>\<open>std::pow\<close> on a positive base), and
  \<^verbatim>\<open>std::to_string\<close> left without digits, since the tag \<^verbatim>\<open>_op\<close> is never read.
\<close>

definition real_libm :: "real libm" where
  "real_libm = \<lparr>m_pow = (\<lambda>x y. x powr y), m_exp = exp, m_tanh = tanh, m_to_string = (\<lambda>x. [])\<rparr>"

section \<open>A scalar type that rounds\<close>

text \<open>
  Integers whose arithmetic rounds every result of magnitude above \<open>2\<^sup>5\<^sup>3\<close> to the nearest even
  integer, a tie going to the multiple of 4: what the arithmetic of \<^verbatim>\<open>double\<close> does to
  integers between \<open>2\<^sup>5\<^sup>3\<close> and \<open>2\<^sup>5\<^sup>4\<close>. Addition is not associative on this type
  (\<open>2\<^sup>5\<^sup>3 + 1 + 1\<close> is \<open>2\<^sup>5\<^sup>3\<close>, and \<open>2\<^sup>5\<^sup>3 + (1 + 1)\<close> is \<open>2\<^sup>5\<^sup>3 + 2\<close>); it serves to run
  the engine where an absorbed summand shows.
\<close>

datatype rounded = Rounded int

definition nearest :: "int \<Rightarrow> int" where
  "nearest n =
     (if abs n \<le> 9007199254740992 then n
      else if even n then n
      else if n mod 4 = 1 then n - 1
      else n + 1)"

instantiation rounded :: "{zero,one,plus,minus,times}"
begin

definition zero_rounded :: rounded where
  "zero_rounded = Rounded 0"

definition one_rounded :: rounded where
  "one_rounded = Rounded 1"

fun plus_rounded :: "rounded \<Rightarrow> rounded \<Rightarrow> rounded" where
  "plus_rounded (Rounded a) (Rounded b) = Rounded (nearest (a + b))"

fun minus_rounded :: "rounded \<Rightarrow> rounded \<Rightarrow> rounded" where
  "minus_rounded (Rounded a) (Rounded b) = Rounded (nearest (a - b))"

fun times_rounded :: "rounded \<Rightarrow> rounded \<Rightarrow> rounded" where
  "times_rounded (Rounded a) (Rounded b) = Rounded (nearest (a * b))"

instance ..

end

section \<open>Example stores\<close>

text \<open>
  The diamond of the specification, \<open>p = x * y\<close>, \<open>q = x + y\<close>, \<open>z = p * q\<close>, over two
  distinct leaves of equal value: \<open>x\<close>, \<open>y\<close>, \<open>p\<close>, \<open>q\<close>, \<open>z\<close> are at the addresses 0 to 4.
\<close>

definition diamond :: "real heap" where
  "diamond =
     (case const_node 1 [] of (x, h1) \<Rightarrow>
      case const_node 1 h1 of (y, h2) \<Rightarrow>
      case mul x y h2 of (p, h3) \<Rightarrow>
      case add x y h3 of (q, h4) \<Rightarrow>
        snd (mul p q h4))"

text \<open>
  Two nodes that are each other's parent. No builder produces this store (the fields of
  \<^verbatim>\<open>Value\<close> are public, so a caller can); the traversal returns on it all the same.
\<close>

definition two_cycle :: "real heap" where
  "two_cycle = [Value_init 1 [1] [] [], Value_init 2 [0] [] []]"

text \<open>
  \<open>y = x + x\<close> beside a leaf \<open>w\<close> that \<open>y\<close> does not use: \<open>x\<close>, \<open>w\<close>, \<open>y\<close> are at the
  addresses 0, 1, 2. The second store is the first one after \<open>y.backward()\<close>.
\<close>

definition shared_operand :: "real heap" where
  "shared_operand =
     (case const_node 3 [] of (x, h1) \<Rightarrow>
      case const_node 7 h1 of (w, h2) \<Rightarrow>
        snd (add x x h2))"

definition shared_operand_once :: "real heap" where
  "shared_operand_once =
     [\<lparr>data = 3, grad = 2, backward_fn = Noop, prev = [], op = [], label = []\<rparr>,
      \<lparr>data = 7, grad = 0, backward_fn = Noop, prev = [], op = [], label = []\<rparr>,
      \<lparr>data = 6, grad = 1, backward_fn = AddBackward 0 0 2, prev = [0, 0], op = ''+'', label = []\<rparr>]"

text \<open>
  Over the rounding scalars: \<open>L = (x * b + x * c) + x * a\<close> on the fresh leaves \<open>x = 1\<close>,
  \<open>a = 2\<^sup>5\<^sup>3\<close>, \<open>b = 1\<close>, \<open>c = 1\<close>, at the addresses \<open>x\<close> 0, \<open>a\<close> 1, \<open>b\<close> 2, \<open>c\<close> 3 and
  \<open>L\<close> 8; and \<open>y = x + x\<close> with \<open>x.grad = 2\<^sup>5\<^sup>3\<close> left by earlier passes.
\<close>

definition absorbed :: "rounded heap" where
  "absorbed =
     (case const_node (Rounded 1) [] of (x, h1) \<Rightarrow>
      case const_node (Rounded 9007199254740992) h1 of (a, h2) \<Rightarrow>
      case const_node (Rounded 1) h2 of (b, h3) \<Rightarrow>
      case const_node (Rounded 1) h3 of (c, h4) \<Rightarrow>
      case mul x b h4 of (p, h5) \<Rightarrow>
      case mul x c h5 of (q, h6) \<Rightarrow>
      case add p q h6 of (s, h7) \<Rightarrow>
      case mul x a h7 of (m, h8) \<Rightarrow>
        snd (add s m h8))"

definition saturated_operand :: "rounded heap" where
  "saturated_operand =
     [\<lparr>data = Rounded 1, grad = Rounded 9007199254740992, backward_fn = Noop, prev = [],
       op = [], label = []\<rparr>,
      \<lparr>data = Rounded 2, grad = Rounded 0, backward_fn = AddBackward 0 0 1, prev = [0, 0],
       op = ''+'', label = []\<rparr>]"

text \<open>A single leaf of value 0.\<close>

definition zero_leaf :: "real heap" where
  "zero_leaf = snd (const_node 0 [])"

text \<open>Two leaves, 6 at address 0 and 2 at address 1, as operands.\<close>

definition operands :: "real heap" where
  "operands = snd (const_node 2 (snd (const_node 6 [])))"

section \<open>Evaluation on concrete stores\<close>

lemmas engine_defs =
  const_node_def make_shared_def Value_init_def set_backward_def add_grad_def
  add_def mul_def pow_def exp_node_def tanh_node_def backward_def replay_def invoke_def

lemma diamond_order: "topo_order diamond 4 = Some [0, 1, 2, 3, 4]"
  by (simp add: topo_order_def diamond_def engine_defs numeral_eq_Suc)

lemma shared_operand_order: "topo_order shared_operand 2 = Some [0, 2]"
  by (simp add: topo_order_def shared_operand_def engine_defs numeral_eq_Suc)

lemmas rounded_defs = zero_rounded_def one_rounded_def nearest_def

lemmas composite_defs =
  add_nd_def add_dn_def mul_nd_def mul_dn_def div_nn_def div_nd_def div_dn_def
  neg_def sub_nn_def sub_nd_def sub_dn_def

section \<open>The store predicates\<close>

lemma list_all_enumerate:
  "list_all P (enumerate 0 h) \<longleftrightarrow> (\<forall>i<length h. P (i, h ! i))"
  by (simp add: list_all_length nth_enumerate_eq)

lemma closed_iff: "closed h \<longleftrightarrow> (\<forall>i<length h. \<forall>p\<in>set (prev (h ! i)). p < length h)"
  unfolding closed_def list_all_length[of _ h] by (simp add: list_all_iff)

lemma ordered_iff: "ordered h \<longleftrightarrow> (\<forall>i<length h. \<forall>p\<in>set (prev (h ! i)). p < i)"
  unfolding ordered_def list_all_enumerate by (simp add: list_all_iff)

lemma rules_ok_iff: "rules_ok h \<longleftrightarrow> (\<forall>i<length h. installed i (h ! i))"
  by (simp add: rules_ok_def list_all_enumerate)

lemma ordered_closed: "ordered h \<Longrightarrow> closed h"
  by (fastforce simp: ordered_iff closed_iff)

section \<open>The traversal\<close>

lemma extends_refl: "extends s s"
  by (simp add: extends_def)

lemma extends_trans:
  assumes "extends s s'" and "extends s' s''"
  shows "extends s s''"
proof -
  from assms(1) obtain nv nt where
    1: "fst s' = fst s @ nv" "snd s' = snd s @ nt" "set nv = set nt" "distinct nv" "distinct nt"
       "set nv \<inter> set (fst s) = {}"
    unfolding extends_def by blast
  from assms(2) obtain nv' nt' where
    2: "fst s'' = fst s' @ nv'" "snd s'' = snd s' @ nt'" "set nv' = set nt'" "distinct nv'"
       "distinct nt'" "set nv' \<inter> set (fst s') = {}"
    unfolding extends_def by blast
  have "fst s'' = fst s @ (nv @ nv')" "snd s'' = snd s @ (nt @ nt')"
    using 1 2 by simp_all
  moreover have "set (nv @ nv') = set (nt @ nt')" using 1 2 by simp
  moreover have "distinct (nv @ nv')" "distinct (nt @ nt')" "set (nv @ nv') \<inter> set (fst s) = {}"
    using 1 2 by auto
  ultimately show ?thesis unfolding extends_def by blast
qed

lemma extends_finish:
  assumes "extends (visited @ [v], topo) (visited', topo')" and "v \<notin> set visited"
  shows "extends (visited, topo) (visited', topo' @ [v])"
proof -
  from assms(1) obtain nv nt where
    1: "visited' = visited @ [v] @ nv" "topo' = topo @ nt" "set nv = set nt" "distinct nv"
       "distinct nt" "set nv \<inter> set (visited @ [v]) = {}"
    unfolding extends_def by auto
  have "visited' = visited @ (v # nv)" "topo' @ [v] = topo @ (nt @ [v])"
    using 1 by simp_all
  moreover have "set (v # nv) = set (nt @ [v])" using 1 by auto
  moreover have "distinct (v # nv)" "distinct (nt @ [v])" "set (v # nv) \<inter> set visited = {}"
    using 1 assms(2) by auto
  ultimately show ?thesis unfolding extends_def fst_conv snd_conv by blast
qed

lemma extends_mono: "extends s s' \<Longrightarrow> set (fst s) \<subseteq> set (fst s')"
  by (auto simp: extends_def)

lemma build_topo_extends:
  "build_topo n h v s = Some s' \<Longrightarrow> extends s s' \<and> v \<in> set (fst s')"
  "build_topo_children n h cs s = Some s' \<Longrightarrow> extends s s' \<and> set cs \<subseteq> set (fst s')"
proof (induction n h v s and n h cs s arbitrary: s' and s' rule: build_topo_build_topo_children.induct)
  case (1 h v s)
  then show ?case by simp
next
  case (2 n h v visited topo)
  show ?case
  proof (cases "v \<in> set visited")
    case True
    with 2 show ?thesis by (auto simp: extends_refl)
  next
    case False
    with "2.prems" obtain visited' topo' where
      c: "build_topo_children n h (prev (h ! v)) (visited @ [v], topo) = Some (visited', topo')"
      and s': "s' = (visited', topo' @ [v])"
      by (auto split: option.splits)
    from "2.IH"[OF False c] have e: "extends (visited @ [v], topo) (visited', topo')" by simp
    from extends_mono[OF e] have "v \<in> set visited'" by auto
    with extends_finish[OF e False] s' show ?thesis by simp
  qed
next
  case (3 n h s)
  then show ?case by (simp add: extends_refl)
next
  case (4 n h child children s)
  from "4.prems" obtain s1 where
    a: "build_topo n h child s = Some s1" and b: "build_topo_children n h children s1 = Some s'"
    by (auto split: option.splits)
  from "4.IH"(1)[OF a] "4.IH"(2)[OF a b] extends_mono[of s1 s']
  show ?case by (auto intro: extends_trans)
qed

lemma parents_first_Nil: "parents_first h []"
  by (simp add: parents_first_def)

lemma parents_first_snoc:
  "parents_first h (topo @ [v]) \<longleftrightarrow> parents_first h topo \<and> set (prev (h ! v)) \<subseteq> set topo"
  unfolding parents_first_def
  by (auto simp: nth_append less_Suc_eq)

lemma reachable_trans: "reachable h c u \<Longrightarrow> reachable h v c \<Longrightarrow> reachable h v u"
  by (induction rule: reachable.induct) (auto intro: reachable.intros)

lemma reachable_bound: "reachable h v u \<Longrightarrow> closed h \<Longrightarrow> v < length h \<Longrightarrow> u < length h"
  by (induction rule: reachable.induct) (auto simp: closed_iff)

lemma reachable_le: "reachable h v u \<Longrightarrow> ordered h \<Longrightarrow> v < length h \<Longrightarrow> u \<le> v"
proof (induction rule: reachable.induct)
  case reachable_self
  show ?case by simp
next
  case (reachable_parent u p)
  then have "u \<le> v" by simp
  with reachable_parent.prems have "u < length h" by simp
  with reachable_parent.hyps(2) reachable_parent.prems(1) have "p < u" by (simp add: ordered_iff)
  with \<open>u \<le> v\<close> show ?case by simp
qed

lemma dag_closed: "dag h \<Longrightarrow> closed h"
  by (simp add: dag_def)

lemma dag_no_cycle:
  "dag h \<Longrightarrow> u < length h \<Longrightarrow> p \<in> set (prev (h ! u)) \<Longrightarrow> \<not> reachable h p u"
  by (simp add: dag_def)

lemma ordered_dag:
  assumes "ordered h"
  shows "dag h"
proof -
  have "\<not> reachable h p u" if "u < length h" "p \<in> set (prev (h ! u))" for u p
  proof
    assume r: "reachable h p u"
    from that assms have "p < u" by (simp add: ordered_iff)
    with that(1) have "p < length h" by simp
    from reachable_le[OF r assms this] \<open>p < u\<close> show False by simp
  qed
  with ordered_closed[OF assms] show ?thesis by (simp add: dag_def)
qed

lemma build_topo_reachable:
  "build_topo n h v s = Some s' \<Longrightarrow>
     set (fst s') \<subseteq> set (fst s) \<union> {u. reachable h v u} \<and>
     set (snd s') \<subseteq> set (snd s) \<union> {u. reachable h v u}"
  "build_topo_children n h cs s = Some s' \<Longrightarrow>
     set (fst s') \<subseteq> set (fst s) \<union> {u. \<exists>c\<in>set cs. reachable h c u} \<and>
     set (snd s') \<subseteq> set (snd s) \<union> {u. \<exists>c\<in>set cs. reachable h c u}"
proof (induction n h v s and n h cs s arbitrary: s' and s'
    rule: build_topo_build_topo_children.induct)
  case (1 h v s)
  then show ?case by simp
next
  case (2 n h v visited topo)
  show ?case
  proof (cases "v \<in> set visited")
    case True
    with 2 show ?thesis by auto
  next
    case False
    with "2.prems" obtain visited' topo' where
      c: "build_topo_children n h (prev (h ! v)) (visited @ [v], topo) = Some (visited', topo')"
      and s': "s' = (visited', topo' @ [v])"
      by (auto split: option.splits)
    have r: "reachable h v u" if "c \<in> set (prev (h ! v))" "reachable h c u" for c u
      using that by (meson reachable_trans reachable.intros)
    from "2.IH"[OF False c] s' r show ?thesis
      by (auto intro: reachable_self)
  qed
next
  case (3 n h s)
  then show ?case by simp
next
  case (4 n h child children s)
  from "4.prems" obtain s1 where
    a: "build_topo n h child s = Some s1" and b: "build_topo_children n h children s1 = Some s'"
    by (auto split: option.splits)
  from "4.IH"(1)[OF a] "4.IH"(2)[OF a b]
  show ?case by auto
qed

lemma extends_gray:
  assumes "extends s s'" and "set (snd s) \<subseteq> set (fst s)"
  shows "set (fst s') - set (snd s') = set (fst s) - set (snd s)" and "set (snd s') \<subseteq> set (fst s')"
  using assms unfolding extends_def by auto

lemma build_topo_parents_first:
  "build_topo n h v s = Some s' \<Longrightarrow> dag h \<Longrightarrow> v < length h \<Longrightarrow> set (snd s) \<subseteq> set (fst s) \<Longrightarrow>
     (\<forall>g\<in>set (fst s) - set (snd s). reachable h g v) \<Longrightarrow> parents_first h (snd s) \<Longrightarrow>
     parents_first h (snd s')"
  "build_topo_children n h cs s = Some s' \<Longrightarrow> dag h \<Longrightarrow> (\<forall>c\<in>set cs. c < length h) \<Longrightarrow>
     set (snd s) \<subseteq> set (fst s) \<Longrightarrow>
     (\<forall>g\<in>set (fst s) - set (snd s). \<forall>c\<in>set cs. reachable h g c) \<Longrightarrow> parents_first h (snd s) \<Longrightarrow>
     parents_first h (snd s')"
proof (induction n h v s and n h cs s arbitrary: s' and s'
    rule: build_topo_build_topo_children.induct)
  case (1 h v s)
  then show ?case by simp
next
  case (2 n h v visited topo)
  show ?case
  proof (cases "v \<in> set visited")
    case True
    with 2 show ?thesis by auto
  next
    case False
    with "2.prems" obtain visited' topo' where
      c: "build_topo_children n h (prev (h ! v)) (visited @ [v], topo) = Some (visited', topo')"
      and s': "s' = (visited', topo' @ [v])"
      by (auto split: option.splits)
    have gray: "\<forall>g\<in>set visited - set topo. reachable h g v" using "2.prems"(5) by simp
    have vt: "v \<notin> set topo" using False "2.prems"(4) by auto
    have ch: "\<forall>c\<in>set (prev (h ! v)). c < length h"
      using dag_closed[OF \<open>dag h\<close>] \<open>v < length h\<close> by (simp add: closed_iff)
    have sub1: "set (snd (visited @ [v], topo)) \<subseteq> set (fst (visited @ [v], topo))"
      using "2.prems"(4) by auto
    have gr: "\<forall>g\<in>set (fst (visited @ [v], topo)) - set (snd (visited @ [v], topo)).
                \<forall>c\<in>set (prev (h ! v)). reachable h g c"
    proof (intro ballI)
      fix g c assume g: "g \<in> set (fst (visited @ [v], topo)) - set (snd (visited @ [v], topo))"
        and c: "c \<in> set (prev (h ! v))"
      from g have "g = v \<or> g \<in> set visited - set topo" by auto
      then have "reachable h g v" using gray by (auto intro: reachable_self)
      then show "reachable h g c" using c by (rule reachable_parent)
    qed
    have pf0: "parents_first h (snd (visited @ [v], topo))" using "2.prems"(6) by simp
    have pf: "parents_first h topo'"
      using "2.IH"[OF False c \<open>dag h\<close> ch sub1 gr pf0] by simp
    have e: "extends (visited @ [v], topo) (visited', topo')"
      and sub: "set (prev (h ! v)) \<subseteq> set visited'"
      using build_topo_extends(2)[OF c] by simp_all
    have g: "set visited' - set topo' = set (visited @ [v]) - set topo"
      using extends_gray(1)[OF e] "2.prems"(4) by auto
    have "p \<in> set topo'" if "p \<in> set (prev (h ! v))" for p
    proof (rule ccontr)
      assume "p \<notin> set topo'"
      with sub that have "p \<in> set visited' - set topo'" by auto
      with g have "p = v \<or> p \<in> set visited - set topo" by auto
      then have "reachable h p v" using gray by (auto intro: reachable_self)
      with dag_no_cycle[OF \<open>dag h\<close> \<open>v < length h\<close> that] show False by simp
    qed
    with pf s' show ?thesis by (auto simp: parents_first_snoc)
  qed
next
  case (3 n h s)
  then show ?case by simp
next
  case (4 n h child children s)
  from "4.prems"(1) obtain s1 where
    a: "build_topo n h child s = Some s1" and b: "build_topo_children n h children s1 = Some s'"
    by (auto split: option.splits)
  have e: "extends s s1" using build_topo_extends(1)[OF a] by simp
  have 1: "parents_first h (snd s1)"
    using "4.IH"(1)[OF a \<open>dag h\<close> _ "4.prems"(4) _ "4.prems"(6)] "4.prems"(3,5) by simp
  have 2: "set (snd s1) \<subseteq> set (fst s1)" "set (fst s1) - set (snd s1) = set (fst s) - set (snd s)"
    using extends_gray[OF e "4.prems"(4)] by simp_all
  have 3: "\<forall>c\<in>set children. c < length h" using "4.prems"(3) by simp
  have 4: "\<forall>g\<in>set (fst s1) - set (snd s1). \<forall>c\<in>set children. reachable h g c"
    unfolding 2(2) using "4.prems"(5) by simp
  show ?case
    using "4.IH"(2)[OF a b \<open>dag h\<close> 3 2(1) 4 1] .
qed

lemma build_topo_bound:
  "build_topo n h v s = Some s' \<Longrightarrow> closed h \<Longrightarrow> v < length h \<Longrightarrow>
     set (fst s) \<subseteq> {..<length h} \<Longrightarrow> set (fst s') \<subseteq> {..<length h}"
  using build_topo_reachable(1)[of n h v s s'] reachable_bound[of h v]
  by auto

lemma build_topo_returns:
  "closed h \<Longrightarrow> v < length h \<Longrightarrow> set (fst s) \<subseteq> {..<length h} \<Longrightarrow>
     card ({..<length h} - set (fst s)) < n \<Longrightarrow> \<exists>s'. build_topo n h v s = Some s'"
  "closed h \<Longrightarrow> \<forall>c\<in>set cs. c < length h \<Longrightarrow> set (fst s) \<subseteq> {..<length h} \<Longrightarrow>
     card ({..<length h} - set (fst s)) < n \<Longrightarrow> \<exists>s'. build_topo_children n h cs s = Some s'"
proof (induction n h v s and n h cs s rule: build_topo_build_topo_children.induct)
  case (1 h v s)
  then show ?case by simp
next
  case (2 n h v visited topo)
  show ?case
  proof (cases "v \<in> set visited")
    case True
    then show ?thesis by simp
  next
    case False
    have ch: "\<forall>c\<in>set (prev (h ! v)). c < length h"
      using \<open>closed h\<close> \<open>v < length h\<close> by (simp add: closed_iff)
    have sub: "set (fst (visited @ [v], topo)) \<subseteq> {..<length h}"
      using "2.prems"(2,3) by simp
    have eq: "{..<length h} - set (visited @ [v]) = ({..<length h} - set visited) - {v}"
      by auto
    have "v \<in> {..<length h} - set visited" using False "2.prems"(2) by simp
    then have "card (({..<length h} - set visited) - {v}) < card ({..<length h} - set visited)"
      by (intro card_Diff1_less) simp_all
    then have "card ({..<length h} - set (visited @ [v])) < card ({..<length h} - set visited)"
      unfolding eq .
    with "2.prems"(4) have c: "card ({..<length h} - set (fst (visited @ [v], topo))) < n"
      by simp
    from "2.IH"[OF False \<open>closed h\<close> ch sub c] False show ?thesis
      by (auto split: option.splits)
  qed
next
  case (3 n h s)
  then show ?case by simp
next
  case (4 n h child children s)
  from "4.IH"(1)[OF \<open>closed h\<close> _ "4.prems"(3,4)] "4.prems"(2)
  obtain s1 where a: "build_topo n h child s = Some s1" by auto
  have b: "set (fst s1) \<subseteq> {..<length h}"
    using build_topo_bound[OF a \<open>closed h\<close> _ "4.prems"(3)] "4.prems"(2) by simp
  have "set (fst s) \<subseteq> set (fst s1)"
    using build_topo_extends(1)[OF a] extends_mono by blast
  then have "card ({..<length h} - set (fst s1)) \<le> card ({..<length h} - set (fst s))"
    by (intro card_mono) auto
  with "4.prems"(4) have c: "card ({..<length h} - set (fst s1)) < n" by simp
  from "4.IH"(2)[OF a \<open>closed h\<close> _ b c] "4.prems"(2) a show ?case by simp
qed

lemma build_topo_more_fuel:
  "build_topo n h v s = Some s' \<Longrightarrow> build_topo (Suc n) h v s = Some s'"
  "build_topo_children n h cs s = Some s' \<Longrightarrow> build_topo_children (Suc n) h cs s = Some s'"
proof (induction n h v s and n h cs s arbitrary: s' and s'
    rule: build_topo_build_topo_children.induct)
  case (1 h v s)
  then show ?case by simp
next
  case (2 n h v visited topo)
  then show ?case by (auto split: option.splits if_splits)
next
  case (3 n h s)
  then show ?case by simp
next
  case (4 n h child children s)
  from "4.prems" obtain s1 where
    a: "build_topo n h child s = Some s1" and b: "build_topo_children n h children s1 = Some s'"
    by (auto split: option.splits)
  from "4.IH"(1)[OF a] "4.IH"(2)[OF a b] show ?case by simp
qed

lemma topo_order_returns:
  assumes "closed h" and "v < length h"
  shows "\<exists>topo. topo_order h v = Some topo"
proof -
  have "card ({..<length h} - set (fst (([], []) :: nat list \<times> nat list))) < Suc (length h)"
    by simp
  from build_topo_returns(1)[OF assms _ this] show ?thesis
    by (auto simp: topo_order_def)
qed

lemma reachable_in_topo:
  assumes "reachable h v u" and "v \<in> set topo" and "parents_first h topo"
  shows "u \<in> set topo"
  using assms
proof (induction rule: reachable.induct)
  case reachable_self
  then show ?case by simp
next
  case (reachable_parent u p)
  then have "u \<in> set topo" by simp
  then obtain i where i: "i < length topo" "topo ! i = u" by (auto simp: in_set_conv_nth)
  with reachable_parent.prems(2) have "set (prev (h ! u)) \<subseteq> set (take i topo)"
    by (auto simp: parents_first_def)
  with reachable_parent.hyps(2) show ?case by (auto dest: in_set_takeD)
qed

lemma topo_order_props:
  assumes "topo_order h v = Some topo" and "dag h" and "v < length h"
  shows "distinct topo" and "set topo = {u. reachable h v u}" and "parents_first h topo"
    and "topo \<noteq> []" and "last topo = v"
proof -
  from assms(1) obtain visited where
    b: "build_topo (Suc (length h)) h v ([], []) = Some (visited, topo)"
    by (auto simp: topo_order_def)
  from build_topo_extends(1)[OF b] have
    e: "set visited = set topo" "distinct topo" and v: "v \<in> set visited"
    by (auto simp: extends_def)
  show "distinct topo" by fact
  from build_topo_parents_first(1)[OF b assms(2,3)] show pf: "parents_first h topo"
    by (simp add: parents_first_Nil)
  from build_topo_reachable(1)[OF b] have "set topo \<subseteq> {u. reachable h v u}" by simp
  moreover have "u \<in> set topo" if "reachable h v u" for u
    using reachable_in_topo[OF that _ pf] v e by simp
  ultimately show "set topo = {u. reachable h v u}" by auto
  from b show "topo \<noteq> []" "last topo = v"
    by (auto split: option.splits)
qed

section \<open>The replay\<close>

lemma same_but_grad_refl: "same_but_grad n n"
  by (simp add: same_but_grad_def)

lemma same_but_grad_trans: "same_but_grad a b \<Longrightarrow> same_but_grad b c \<Longrightarrow> same_but_grad a c"
  by (simp add: same_but_grad_def)

lemma same_store_refl: "list_all2 same_but_grad h h"
  by (simp add: list_all2_conv_all_nth same_but_grad_refl)

lemma same_store_trans:
  "list_all2 same_but_grad a b \<Longrightarrow> list_all2 same_but_grad b c \<Longrightarrow> list_all2 same_but_grad a c"
  by (rule list_all2_trans[of same_but_grad same_but_grad same_but_grad])
     (auto intro: same_but_grad_trans)

lemma same_store_nth:
  "list_all2 same_but_grad h g \<Longrightarrow> i < length h \<Longrightarrow> same_but_grad (h ! i) (g ! i)"
  by (simp add: list_all2_conv_all_nth)

lemma grad_update_same: "list_all2 same_but_grad h (h[p := (h ! p)\<lparr>grad := d\<rparr>])"
  by (cases "p < length h")
     (simp_all add: list_all2_conv_all_nth nth_list_update same_but_grad_def)

lemma add_grad_same: "list_all2 same_but_grad h (add_grad p d h)"
  unfolding add_grad_def by (rule grad_update_same)

lemma add_grad_length: "length (add_grad p d h) = length h"
  by (simp add: add_grad_def)

lemma add_grad_other: "j \<noteq> p \<Longrightarrow> add_grad p d h ! j = h ! j"
  by (simp add: add_grad_def)

lemma add_grad_data: "data (add_grad p d h ! j) = data (h ! j)"
  by (cases "p < length h") (simp_all add: add_grad_def nth_list_update not_less list_update_beyond)

lemma add_grad_grad:
  "p < length h \<Longrightarrow> grad (add_grad p d h ! j) = (if j = p then grad (h ! p) + d else grad (h ! j))"
  by (simp add: add_grad_def)

lemma call_same: "list_all2 same_but_grad h (call lib c h)"
  by (cases c) (auto simp: Let_def intro: add_grad_same same_store_refl same_store_trans)

lemma call_other:
  assumes "installed i n" and "j \<notin> set (prev n)"
  shows "call lib (backward_fn n) g ! j = g ! j"
  using assms by (cases "backward_fn n") (auto simp: installed_def Let_def add_grad_other)

lemma call_contributions:
  fixes g :: "'a::{one,plus,minus,times} heap"
  assumes "installed i n" and "i \<notin> set (prev n)" and "\<forall>p\<in>set (prev n). p < length g"
  shows "grad (call lib (backward_fn n) g ! x) =
           foldl (+) (grad (g ! x)) (contributions lib (backward_fn n) g x)"
  using assms
  by (cases "backward_fn n")
     (auto simp: installed_def Let_def add_grad_grad add_grad_length add_grad_data add_grad_other)

lemma installed_same: "same_but_grad n n' \<Longrightarrow> installed i n' = installed i n"
  by (cases "backward_fn n") (auto simp: installed_def same_but_grad_def)

lemma invoke_same: "list_all2 same_but_grad h (invoke lib v h)"
  by (simp add: invoke_def call_same)

lemma fold_invoke_same: "list_all2 same_but_grad g (fold (invoke lib) order g)"
proof (induction order arbitrary: g)
  case Nil
  show ?case by (simp add: same_store_refl)
next
  case (Cons c cs)
  show ?case using same_store_trans[OF invoke_same Cons] by simp
qed

lemma children_first_rev: "parents_first h topo \<Longrightarrow> distinct topo \<Longrightarrow> children_first h (rev topo)"
  by (induction topo rule: rev_induct) (auto simp: parents_first_snoc)

lemma children_first_closed:
  "children_first h cs \<Longrightarrow> k \<in> set cs \<Longrightarrow> set (prev (h ! k)) \<subseteq> set cs"
  by (induction cs) auto

lemma invoke_other:
  assumes "rules_ok h" and "list_all2 same_but_grad h g" and "c < length h"
    and "j \<notin> set (prev (h ! c))"
  shows "invoke lib c g ! j = g ! j"
proof -
  have s: "same_but_grad (h ! c) (g ! c)" using assms(2,3) by (rule same_store_nth)
  have "installed c (g ! c)"
    using assms(1,3) installed_same[OF s] by (simp add: rules_ok_iff)
  moreover have "j \<notin> set (prev (g ! c))" using s assms(4) by (simp add: same_but_grad_def)
  ultimately show ?thesis unfolding invoke_def by (rule call_other)
qed

lemma fold_invoke_other:
  assumes "rules_ok h" and "list_all2 same_but_grad h g" and "\<forall>k\<in>set order. k < length h"
    and "\<forall>k\<in>set order. j \<notin> set (prev (h ! k))"
  shows "fold (invoke lib) order g ! j = g ! j"
  using assms(2-)
proof (induction order arbitrary: g)
  case Nil
  show ?case by simp
next
  case (Cons c cs)
  have 1: "list_all2 same_but_grad h (invoke lib c g)"
    using same_store_trans[OF Cons.prems(1) invoke_same] .
  have "fold (invoke lib) cs (invoke lib c g) ! j = invoke lib c g ! j"
    using Cons.IH[OF 1] Cons.prems(2,3) by simp
  also have "\<dots> = g ! j"
    using invoke_other[OF assms(1) Cons.prems(1)] Cons.prems(2,3) by simp
  finally show ?case by simp
qed

lemma contributions_cong:
  fixes g :: "'a::{one,plus,minus,times} heap"
  assumes "list_all2 same_but_grad g g'" and "installed i n" and "i < length g"
    and "\<forall>p\<in>set (prev n). p < length g" and "grad (g' ! i) = grad (g ! i)"
  shows "contributions lib (backward_fn n) g' x = contributions lib (backward_fn n) g x"
proof -
  have d: "data (g' ! p) = data (g ! p)" if "p < length g" for p
    using same_store_nth[OF assms(1) that] by (simp add: same_but_grad_def)
  show ?thesis
    using assms(2-) d by (cases "backward_fn n") (auto simp: installed_def)
qed

lemma invoke_contributions:
  fixes g :: "'a::{one,plus,minus,times} heap"
  assumes "dag h" and "rules_ok h" and "list_all2 same_but_grad h g" and "c < length h"
  shows "grad (invoke lib c g ! x) =
           foldl (+) (grad (g ! x)) (contributions lib (backward_fn (h ! c)) g x)"
proof -
  have s: "same_but_grad (h ! c) (g ! c)" using assms(3,4) by (rule same_store_nth)
  have i: "installed c (g ! c)"
    using assms(2,4) installed_same[OF s] by (simp add: rules_ok_iff)
  have p: "prev (g ! c) = prev (h ! c)" "backward_fn (g ! c) = backward_fn (h ! c)"
    using s by (simp_all add: same_but_grad_def)
  have ns: "c \<notin> set (prev (h ! c))"
    using dag_no_cycle[OF assms(1,4)] reachable_self by blast
  have bd: "\<forall>p\<in>set (prev (h ! c)). p < length h"
    using dag_closed[OF assms(1)] assms(4) by (simp add: closed_iff)
  have l: "length g = length h" using assms(3) by (simp add: list_all2_lengthD)
  have "c \<notin> set (prev (g ! c))" using ns p by simp
  moreover have "\<forall>q\<in>set (prev (g ! c)). q < length g" using bd p l by simp
  ultimately show ?thesis
    unfolding invoke_def using call_contributions[OF i, of g lib x] p by simp
qed

lemma fold_invoke_accumulates:
  fixes g :: "'a::{one,plus,minus,times} heap"
  assumes "dag h" and "rules_ok h" and "list_all2 same_but_grad h g"
    and "\<forall>k\<in>set order. k < length h" and "children_first h order"
  shows "grad (fold (invoke lib) order g ! x) =
           foldl (+) (grad (g ! x))
             (concat (map (\<lambda>c. contributions lib (backward_fn (h ! c))
                                  (fold (invoke lib) order g) x) order))"
  using assms(3-)
proof (induction order arbitrary: g)
  case Nil
  show ?case by simp
next
  case (Cons c cs)
  let ?g1 = "invoke lib c g"
  let ?f = "fold (invoke lib) cs ?g1"
  have c: "c < length h" using Cons.prems(2) by simp
  have l: "length g = length h" using Cons.prems(1) by (simp add: list_all2_lengthD)
  have 1: "list_all2 same_but_grad h ?g1"
    using same_store_trans[OF Cons.prems(1) invoke_same] .
  have ns: "c \<notin> set (prev (h ! c))"
    using dag_no_cycle[OF assms(1) c] reachable_self by blast
  have bd: "\<forall>p\<in>set (prev (h ! c)). p < length h"
    using dag_closed[OF assms(1)] c by (simp add: closed_iff)
  have ih: "grad (?f ! x) =
      foldl (+) (grad (?g1 ! x))
        (concat (map (\<lambda>k. contributions lib (backward_fn (h ! k)) ?f x) cs))"
    using Cons.IH[OF 1] Cons.prems(2,3) by simp
  have notin: "\<forall>k\<in>set (c # cs). c \<notin> set (prev (h ! k))"
  proof
    fix k assume "k \<in> set (c # cs)"
    then consider "k = c" | "k \<in> set cs" by auto
    then show "c \<notin> set (prev (h ! k))"
    proof cases
      case 1
      with ns show ?thesis by simp
    next
      case 2
      with children_first_closed[of h cs k] Cons.prems(3) show ?thesis by auto
    qed
  qed
  have "fold (invoke lib) (c # cs) g ! c = g ! c"
    using fold_invoke_other[OF assms(2) Cons.prems(1,2) notin] .
  then have gc: "grad (?f ! c) = grad (g ! c)" by simp
  have s: "same_but_grad (h ! c) (g ! c)" using Cons.prems(1) c by (rule same_store_nth)
  have i: "installed c (g ! c)"
    using assms(2) c installed_same[OF s] by (simp add: rules_ok_iff)
  have p: "prev (g ! c) = prev (h ! c)" "backward_fn (g ! c) = backward_fn (h ! c)"
    using s by (simp_all add: same_but_grad_def)
  have "list_all2 same_but_grad g ?f"
    using same_store_trans[OF invoke_same fold_invoke_same] .
  moreover have "c < length g" using c l by simp
  moreover have "\<forall>q\<in>set (prev (g ! c)). q < length g" using bd p l by simp
  ultimately
  have cc: "contributions lib (backward_fn (h ! c)) ?f x =
            contributions lib (backward_fn (h ! c)) g x"
    using contributions_cong[OF _ i _ _ gc, of lib x] p by simp
  have "grad (?g1 ! x) = foldl (+) (grad (g ! x)) (contributions lib (backward_fn (h ! c)) ?f x)"
    using invoke_contributions[OF assms(1,2) Cons.prems(1) c, of lib x] cc by simp
  with ih show ?case by simp
qed

section \<open>The backward pass\<close>

lemma backward_eq:
  "topo_order h v = Some topo \<Longrightarrow>
   backward lib v h = Some (replay lib topo (h[v := (h ! v)\<lparr>grad := 1\<rparr>]))"
  by (auto simp: topo_order_def backward_def split: option.splits)

lemma backward_topo_order:
  "backward lib v h = Some h' \<Longrightarrow> \<exists>topo. topo_order h v = Some topo"
  by (auto simp: topo_order_def backward_def split: option.splits)

lemma backward_returns:
  assumes "closed h" and "v < length h"
  shows "\<exists>h'. backward lib v h = Some h'"
  using topo_order_returns[OF assms] backward_eq by blast

lemma replay_same: "list_all2 same_but_grad h (replay lib topo h)"
  by (simp add: replay_def fold_invoke_same)

lemma backward_same:
  assumes "backward lib v h = Some h'"
  shows "list_all2 same_but_grad h h'"
proof -
  from backward_topo_order[OF assms] obtain topo where t: "topo_order h v = Some topo" ..
  from backward_eq[OF t, of lib] assms
  have "h' = replay lib topo (h[v := (h ! v)\<lparr>grad := 1\<rparr>])" by simp
  with same_store_trans[OF grad_update_same replay_same] show ?thesis by simp
qed

lemma topo_order_reachable:
  assumes "topo_order h v = Some topo"
  shows "set topo \<subseteq> {u. reachable h v u}"
proof -
  from assms obtain visited where
    "build_topo (Suc (length h)) h v ([], []) = Some (visited, topo)"
    by (auto simp: topo_order_def)
  from build_topo_reachable(1)[OF this] show ?thesis by simp
qed

lemma backward_unreachable:
  assumes "rules_ok h" and "closed h" and "v < length h" and "backward lib v h = Some h'"
    and "\<not> reachable h v x"
  shows "h' ! x = h ! x"
proof -
  from backward_topo_order[OF assms(4)] obtain topo where t: "topo_order h v = Some topo" ..
  let ?h0 = "h[v := (h ! v)\<lparr>grad := 1\<rparr>]"
  from backward_eq[OF t, of lib] assms(4)
  have h': "h' = fold (invoke lib) (rev topo) ?h0" by (simp add: replay_def)
  have r: "\<forall>k\<in>set (rev topo). reachable h v k" using topo_order_reachable[OF t] by auto
  then have 1: "\<forall>k\<in>set (rev topo). k < length h"
    using reachable_bound[OF _ assms(2,3)] by blast
  have 2: "\<forall>k\<in>set (rev topo). x \<notin> set (prev (h ! k))"
    using r assms(5) reachable_parent by blast
  have "x \<noteq> v" using assms(5) reachable_self by blast
  then have "?h0 ! x = h ! x" by simp
  moreover have "list_all2 same_but_grad h ?h0" by (rule grad_update_same)
  from fold_invoke_other[OF assms(1) this 1 2] have "h' ! x = ?h0 ! x" unfolding h' .
  ultimately show ?thesis by simp
qed

lemma backward_leaf:
  assumes "rules_ok h" and "v < length h" and "prev (h ! v) = []"
  shows "backward lib v h = Some (h[v := (h ! v)\<lparr>grad := 1\<rparr>])"
proof -
  have "installed v (h ! v)" using assms(1,2) by (simp add: rules_ok_iff)
  with assms(3) have "backward_fn (h ! v) = Noop"
    by (cases "backward_fn (h ! v)") (auto simp: installed_def)
  with assms(2,3) show ?thesis
    by (simp add: backward_def replay_def invoke_def)
qed

lemma backward_gradient:
  fixes h :: "'a::{one,plus,minus,times} heap"
  assumes "dag h" and "rules_ok h" and "v < length h"
  shows "\<exists>topo h'. topo_order h v = Some topo \<and> backward lib v h = Some h' \<and>
           grad (h' ! v) = 1 \<and>
           (\<forall>x. grad (h' ! x) =
                  foldl (+) (if x = v then 1 else grad (h ! x))
                    (concat (map (\<lambda>c. contributions lib (backward_fn (h ! c)) h' x)
                       (rev topo))))"
proof -
  from topo_order_returns[OF dag_closed[OF assms(1)] assms(3)]
  obtain topo where t: "topo_order h v = Some topo" ..
  let ?h0 = "h[v := (h ! v)\<lparr>grad := 1\<rparr>]"
  let ?h' = "fold (invoke lib) (rev topo) ?h0"
  have b: "backward lib v h = Some ?h'" using backward_eq[OF t] by (simp add: replay_def)
  note p = topo_order_props[OF t assms(1,3)]
  have r: "\<forall>k\<in>set (rev topo). reachable h v k" using p(2) by auto
  then have 1: "\<forall>k\<in>set (rev topo). k < length h"
    using reachable_bound[OF _ dag_closed[OF assms(1)] assms(3)] by blast
  have cf: "children_first h (rev topo)" using children_first_rev[OF p(3,1)] .
  have 2: "\<forall>k\<in>set (rev topo). v \<notin> set (prev (h ! k))"
  proof
    fix k assume "k \<in> set (rev topo)"
    with r 1 have k: "reachable h v k" "k < length h" by auto
    show "v \<notin> set (prev (h ! k))"
    proof
      assume "v \<in> set (prev (h ! k))"
      from dag_no_cycle[OF assms(1) k(2) this] k(1) show False by simp
    qed
  qed
  have same0: "list_all2 same_but_grad h ?h0" by (rule grad_update_same)
  have "?h' ! v = ?h0 ! v"
    using fold_invoke_other[OF assms(2) same0 1 2] .
  then have root: "grad (?h' ! v) = 1" using assms(3) by simp
  have "grad (?h' ! x) =
      foldl (+) (if x = v then 1 else grad (h ! x))
        (concat (map (\<lambda>c. contributions lib (backward_fn (h ! c)) ?h' x) (rev topo)))" for x
    using fold_invoke_accumulates[OF assms(1,2) same0 1 cf, of lib x] assms(3)
    by (simp add: nth_list_update)
  with t b root show ?thesis by blast
qed

lemma contributions_none:
  fixes g :: "'a::{one,plus,minus,times} heap"
  assumes "installed i n" and "x \<notin> set (prev n)"
  shows "contributions lib (backward_fn n) g x = []"
  using assms by (cases "backward_fn n") (auto simp: installed_def)

lemma concat_consumers:
  assumes "\<forall>c\<in>set cs. \<not> P c \<longrightarrow> f c = []"
  shows "concat (map f (filter P cs)) = concat (map f cs)"
  using assms by (induction cs) auto

lemma build_topo_fuel_add:
  "build_topo n h v s = Some s' \<Longrightarrow> build_topo (n + k) h v s = Some s'"
  by (induction k) (simp_all add: build_topo_more_fuel(1))

lemma same_store_ordered: "list_all2 same_but_grad h h' \<Longrightarrow> ordered h' = ordered h"
  unfolding ordered_iff
  by (auto simp: list_all2_conv_all_nth same_but_grad_def)

lemma same_store_rules_ok: "list_all2 same_but_grad h h' \<Longrightarrow> rules_ok h' = rules_ok h"
proof -
  assume s: "list_all2 same_but_grad h h'"
  have "installed i (h' ! i) = installed i (h ! i)" if "i < length h" for i
    using installed_same[OF same_store_nth[OF s that]] .
  with list_all2_lengthD[OF s] show ?thesis unfolding rules_ok_iff by auto
qed

lemma closed_same: "list_all2 same_but_grad h h' \<Longrightarrow> closed h \<Longrightarrow> closed h'"
  unfolding closed_iff
  by (auto simp: list_all2_conv_all_nth same_but_grad_def)

lemma reachable_same:
  assumes "list_all2 same_but_grad h h'" and "closed h" and "v < length h"
  shows "reachable h' v u \<Longrightarrow> reachable h v u"
proof (induction rule: reachable.induct)
  case reachable_self
  show ?case by (rule reachable.reachable_self)
next
  case (reachable_parent u p)
  from reachable_bound[OF reachable_parent.IH assms(2,3)] have "u < length h" .
  from same_store_nth[OF assms(1) this] reachable_parent.hyps(2)
  have "p \<in> set (prev (h ! u))" by (simp add: same_but_grad_def)
  with reachable_parent.IH show ?case by (rule reachable.reachable_parent)
qed

lemma same_store_dag:
  assumes "list_all2 same_but_grad h h'" and "dag h"
  shows "dag h'"
proof -
  note c = dag_closed[OF assms(2)]
  have l: "length h' = length h" using assms(1) by (simp add: list_all2_lengthD)
  have "\<not> reachable h' p u" if "u < length h'" "p \<in> set (prev (h' ! u))" for u p
  proof
    assume r: "reachable h' p u"
    from that l have u: "u < length h" by simp
    from same_store_nth[OF assms(1) u] that(2) have p: "p \<in> set (prev (h ! u))"
      by (simp add: same_but_grad_def)
    with c u have "p < length h" by (simp add: closed_iff)
    from reachable_same[OF assms(1) c this r] dag_no_cycle[OF assms(2) u p] show False by simp
  qed
  with closed_same[OF assms(1) c] show ?thesis by (simp add: dag_def)
qed

section \<open>The builders\<close>

lemma rules_ok_snoc: "rules_ok (h @ [n]) \<longleftrightarrow> rules_ok h \<and> installed (length h) n"
  unfolding rules_ok_iff by (auto simp: nth_append less_Suc_eq)

lemma reachable_snoc:
  assumes "closed h" and "v < length h"
  shows "reachable (h @ ns) v u \<longleftrightarrow> reachable h v u"
proof
  show "reachable h v u" if "reachable (h @ ns) v u"
    using that
  proof (induction rule: reachable.induct)
    case reachable_self
    show ?case by (rule reachable.reachable_self)
  next
    case (reachable_parent u p)
    from reachable_bound[OF reachable_parent.IH assms] have "u < length h" .
    with reachable_parent.hyps(2) have "p \<in> set (prev (h ! u))" by (simp add: nth_append)
    with reachable_parent.IH show ?case by (rule reachable.reachable_parent)
  qed
  show "reachable (h @ ns) v u" if "reachable h v u"
    using that
  proof (induction rule: reachable.induct)
    case reachable_self
    show ?case by (rule reachable.reachable_self)
  next
    case (reachable_parent u p)
    from reachable_bound[OF reachable_parent.hyps(1) assms] have "u < length h" .
    with reachable_parent.hyps(2) have "p \<in> set (prev ((h @ ns) ! u))" by (simp add: nth_append)
    with reachable_parent.IH show ?case by (rule reachable.reachable_parent)
  qed
qed

lemma dag_snoc:
  assumes "dag h" and "\<forall>p\<in>set (prev n). p < length h"
  shows "dag (h @ [n])"
proof -
  note c = dag_closed[OF assms(1)]
  have c': "closed (h @ [n])"
    using c assms(2) unfolding closed_iff by (auto simp: nth_append less_Suc_eq)
  have "\<not> reachable (h @ [n]) p u" if "u < length (h @ [n])" "p \<in> set (prev ((h @ [n]) ! u))"
    for u p
  proof
    assume r: "reachable (h @ [n]) p u"
    have p: "p < length h"
      using that c assms(2) by (cases "u < length h") (auto simp: nth_append closed_iff)
    from r have r': "reachable h p u" unfolding reachable_snoc[OF c p] .
    from reachable_bound[OF r' c p] have u: "u < length h" .
    with that(2) have "p \<in> set (prev (h ! u))" by (simp add: nth_append)
    from dag_no_cycle[OF assms(1) u this] r' show False by simp
  qed
  with c' show ?thesis by (simp add: dag_def)
qed

lemma ordered_append:
  "ordered (h @ ns) \<longleftrightarrow>
     ordered h \<and> list_all (\<lambda>(i, n). list_all (\<lambda>p. p < i) (prev n)) (enumerate (length h) ns)"
  by (simp add: ordered_def enumerate_append_eq)

lemma rules_ok_append:
  "rules_ok (h @ ns) \<longleftrightarrow>
     rules_ok h \<and> list_all (\<lambda>(i, n). installed i n) (enumerate (length h) ns)"
  by (simp add: rules_ok_def enumerate_append_eq)

lemma empty_store_well_formed: "ordered [] \<and> rules_ok [] \<and> dag []"
  by (simp add: ordered_def rules_ok_def dag_def closed_def)

lemma builders_keep_stores_well_formed:
  fixes h :: "'a::{zero,one,plus,minus,uminus,times,inverse} heap"
  assumes "ordered h" and "rules_ok h" and "self < length h" and "other < length h"
  shows "ordered (snd (const_node a h)) \<and> rules_ok (snd (const_node a h))"
    and "ordered (snd (add self other h)) \<and> rules_ok (snd (add self other h))"
    and "ordered (snd (mul self other h)) \<and> rules_ok (snd (mul self other h))"
    and "ordered (snd (pow lib self a h)) \<and> rules_ok (snd (pow lib self a h))"
    and "ordered (snd (exp_node lib self h)) \<and> rules_ok (snd (exp_node lib self h))"
    and "ordered (snd (tanh_node lib self h)) \<and> rules_ok (snd (tanh_node lib self h))"
    and "ordered (snd (neg self h)) \<and> rules_ok (snd (neg self h))"
    and "ordered (snd (sub_nn self other h)) \<and> rules_ok (snd (sub_nn self other h))"
    and "ordered (snd (div_nn lib self other h)) \<and> rules_ok (snd (div_nn lib self other h))"
    and "ordered (snd (add_nd self a h)) \<and> rules_ok (snd (add_nd self a h))"
    and "ordered (snd (add_dn a other h)) \<and> rules_ok (snd (add_dn a other h))"
    and "ordered (snd (mul_nd self a h)) \<and> rules_ok (snd (mul_nd self a h))"
    and "ordered (snd (mul_dn a other h)) \<and> rules_ok (snd (mul_dn a other h))"
    and "ordered (snd (sub_nd self a h)) \<and> rules_ok (snd (sub_nd self a h))"
    and "ordered (snd (sub_dn a other h)) \<and> rules_ok (snd (sub_dn a other h))"
    and "ordered (snd (div_nd self a h)) \<and> rules_ok (snd (div_nd self a h))"
    and "ordered (snd (div_dn lib a other h)) \<and> rules_ok (snd (div_dn lib a other h))"
  using assms
  by (simp_all add: composite_defs engine_defs ordered_append rules_ok_append installed_def
      nth_append)

lemma frame_builders:
  fixes h :: "'a::{zero,one,plus,minus,uminus,times,inverse} heap"
  shows "allocates h (const_node a h)"
    and "allocates h (add self other h)"
    and "allocates h (add_nd self a h)"
    and "allocates h (add_dn a other h)"
    and "allocates h (mul self other h)"
    and "allocates h (mul_nd self a h)"
    and "allocates h (mul_dn a other h)"
    and "allocates h (pow lib self a h)"
    and "allocates h (div_nn lib self other h)"
    and "allocates h (div_nd self a h)"
    and "allocates h (div_dn lib a other h)"
    and "allocates h (neg self h)"
    and "allocates h (sub_nn self other h)"
    and "allocates h (sub_nd self a h)"
    and "allocates h (sub_dn a other h)"
    and "allocates h (exp_node lib self h)"
    and "allocates h (tanh_node lib self h)"
  by (simp_all add: allocates_def composite_defs engine_defs)

section \<open>A node with a single consumer\<close>

lemma reachable_first:
  "reachable h v u \<Longrightarrow> u = v \<or> (\<exists>p\<in>set (prev (h ! v)). reachable h p u)"
proof (induction rule: reachable.induct)
  case reachable_self
  show ?case by simp
next
  case (reachable_parent u p)
  then show ?case by (auto intro: reachable.intros)
qed

lemma backward_single_consumer:
  fixes h :: "'a::{one,plus,minus,times} heap"
  assumes "dag h" and "rules_ok h" and "v < length h"
    and "\<forall>c. reachable h v c \<longrightarrow> c \<noteq> v \<longrightarrow> x \<notin> set (prev (h ! c))"
  shows "\<exists>h'. backward lib v h = Some h' \<and> list_all2 same_but_grad h h' \<and> grad (h' ! v) = 1 \<and>
           grad (h' ! x) =
             foldl (+) (if x = v then 1 else grad (h ! x))
               (contributions lib (backward_fn (h ! v)) h' x)"
proof -
  from backward_gradient[OF assms(1-3), of lib] obtain topo h' where
    t: "topo_order h v = Some topo" and b: "backward lib v h = Some h'"
    and r: "grad (h' ! v) = 1"
    and g: "\<And>x. grad (h' ! x) =
                  foldl (+) (if x = v then 1 else grad (h ! x))
                    (concat (map (\<lambda>c. contributions lib (backward_fn (h ! c)) h' x)
                       (rev topo)))"
    by blast
  note p = topo_order_props[OF t assms(1,3)]
  from p(4,5) obtain rest where topo: "topo = rest @ [v]"
    by (metis append_butlast_last_id)
  have lt: "\<forall>k\<in>set topo. k < length h"
    using p(2) reachable_bound[OF _ dag_closed[OF assms(1)] assms(3)] by blast
  have "contributions lib (backward_fn (h ! c)) h' x = []" if "c \<in> set rest" for c
  proof -
    from that topo p(1) have "c \<noteq> v" by auto
    moreover from that topo p(2) have "reachable h v c" by auto
    ultimately have "x \<notin> set (prev (h ! c))" using assms(4) by blast
    moreover have "installed c (h ! c)" using that topo lt assms(2) by (simp add: rules_ok_iff)
    ultimately show ?thesis using contributions_none by blast
  qed
  then have "concat (map (\<lambda>c. contributions lib (backward_fn (h ! c)) h' x) (rev rest)) = []"
    by simp
  with g[of x] topo have "grad (h' ! x) =
      foldl (+) (if x = v then 1 else grad (h ! x))
        (contributions lib (backward_fn (h ! v)) h' x)"
    by simp
  with b r backward_same[OF b] show ?thesis by blast
qed

lemma reachable_leaf: "reachable h v u \<Longrightarrow> prev (h ! v) = [] \<Longrightarrow> u = v"
  using reachable_first by fastforce

lemma not_consumer_below:
  assumes "dag h" and "x < length h" and "reachable h x c"
  shows "x \<notin> set (prev (h ! c))"
proof
  assume "x \<in> set (prev (h ! c))"
  from reachable_bound[OF assms(3) dag_closed[OF assms(1)] assms(2)] have "c < length h" .
  from dag_no_cycle[OF assms(1) this \<open>x \<in> set (prev (h ! c))\<close>] assms(3) show False by simp
qed

lemma div_nd_gradient:
  fixes h :: "'a::{zero,one,plus,minus,times,inverse} heap"
  assumes "dag h" and "rules_ok h" and "x < length h"
  shows "case div_nd x c h of (out, hA) \<Rightarrow>
           data (hA ! out) = data (h ! x) * (1 / c) \<and>
           (\<exists>hA'. backward lib out hA = Some hA' \<and> grad (hA' ! x) = grad (h ! x) + (1 / c) * 1)"
proof -
  let ?n = "length h"
  let ?leaf = "Value_init (1 / c) [] [] [] :: 'a Value"
  let ?m = "(Value_init (data (h ! x) * (1 / c)) [x, ?n] ''*'' [])
              \<lparr>backward_fn := MulBackward x ?n (Suc ?n)\<rparr>"
  let ?hA = "h @ [?leaf, ?m]"
  have eq: "div_nd x c h = (Suc ?n, ?hA)"
    using assms(3) by (simp add: composite_defs engine_defs nth_append)
  have "dag (h @ [?leaf])" using dag_snoc[OF assms(1)] by (simp add: Value_init_def)
  from dag_snoc[OF this, of ?m] assms(3) have d: "dag ?hA" by (simp add: Value_init_def)
  have r: "rules_ok ?hA"
    using assms(2) rules_ok_snoc[of "h @ [?leaf]" ?m] rules_ok_snoc[of h ?leaf]
    by (simp add: Value_init_def installed_def)
  have l: "Suc ?n < length ?hA" "x < length ?hA" using assms(3) by simp_all
  have nc: "\<forall>k. reachable ?hA (Suc ?n) k \<longrightarrow> k \<noteq> Suc ?n \<longrightarrow> x \<notin> set (prev (?hA ! k))"
  proof (intro allI impI)
    fix k assume k: "reachable ?hA (Suc ?n) k" "k \<noteq> Suc ?n"
    from reachable_first[OF k(1)] k(2)
    have "reachable ?hA x k \<or> reachable ?hA ?n k"
      by (auto simp: nth_append Value_init_def)
    then show "x \<notin> set (prev (?hA ! k))"
    proof
      assume "reachable ?hA x k"
      from not_consumer_below[OF d l(2) this] show ?thesis .
    next
      assume "reachable ?hA ?n k"
      from reachable_leaf[OF this] have "k = ?n" by (simp add: nth_append Value_init_def)
      then show ?thesis by (simp add: nth_append Value_init_def)
    qed
  qed
  from backward_single_consumer[OF d r l(1) nc, of lib] obtain hA' where
    b: "backward lib (Suc ?n) ?hA = Some hA'" and s: "list_all2 same_but_grad ?hA hA'"
    and g1: "grad (hA' ! Suc ?n) = 1"
    and g: "grad (hA' ! x) =
             foldl (+) (if x = Suc ?n then 1 else grad (?hA ! x))
               (contributions lib (backward_fn (?hA ! Suc ?n)) hA' x)"
    by blast
  have "same_but_grad (?hA ! ?n) (hA' ! ?n)" using same_store_nth[OF s, of ?n] by simp
  then have dl: "data (hA' ! ?n) = 1 / c"
    by (simp add: same_but_grad_def nth_append Value_init_def)
  have "grad (hA' ! x) = grad (h ! x) + (1 / c) * 1"
    using g g1 dl assms(3) by (simp add: nth_append)
  with b eq assms(3) show ?thesis by (simp add: nth_append Value_init_def)
qed

lemma div_nn_promoted_gradient:
  fixes h :: "'a::{zero,one,plus,minus,uminus,times} heap"
  assumes "dag h" and "rules_ok h" and "x < length h"
  shows "case promote_right (div_nn lib) x c h of (out, hB) \<Rightarrow>
           data (hB ! out) = data (h ! x) * m_pow lib c (- 1) \<and>
           (\<exists>hB'. backward lib out hB = Some hB' \<and>
              grad (hB' ! x) = grad (h ! x) + m_pow lib c (- 1) * 1)"
proof -
  let ?n = "length h"
  let ?leaf = "Value_init c [] [] [] :: 'a Value"
  let ?p = "(Value_init (m_pow lib c (- 1)) [?n] (''**'' @ m_to_string lib (- 1)) [])
              \<lparr>backward_fn := PowBackward ?n (- 1) (Suc ?n)\<rparr>"
  let ?m = "(Value_init (data (h ! x) * m_pow lib c (- 1)) [x, Suc ?n] ''*'' [])
              \<lparr>backward_fn := MulBackward x (Suc ?n) (Suc (Suc ?n))\<rparr>"
  let ?hB = "h @ [?leaf, ?p, ?m]"
  let ?v = "Suc (Suc ?n)"
  have eq: "promote_right (div_nn lib) x c h = (?v, ?hB)"
    using assms(3) by (simp add: promote_right_def composite_defs engine_defs nth_append)
  have "dag (h @ [?leaf])" using dag_snoc[OF assms(1)] by (simp add: Value_init_def)
  from dag_snoc[OF this, of ?p] have "dag ((h @ [?leaf]) @ [?p])" by (simp add: Value_init_def)
  from dag_snoc[OF this, of ?m] assms(3) have d: "dag ?hB" by (simp add: Value_init_def)
  have "rules_ok (h @ [?leaf])"
    using assms(2) by (simp add: rules_ok_snoc Value_init_def installed_def)
  then have "rules_ok ((h @ [?leaf]) @ [?p])"
    unfolding rules_ok_snoc by (simp add: Value_init_def installed_def)
  then have "rules_ok (((h @ [?leaf]) @ [?p]) @ [?m])"
    unfolding rules_ok_snoc by (simp add: Value_init_def installed_def)
  then have r: "rules_ok ?hB" by simp
  have l: "?v < length ?hB" "x < length ?hB" using assms(3) by simp_all
  have nc: "\<forall>k. reachable ?hB ?v k \<longrightarrow> k \<noteq> ?v \<longrightarrow> x \<notin> set (prev (?hB ! k))"
  proof (intro allI impI)
    fix k assume k: "reachable ?hB ?v k" "k \<noteq> ?v"
    from reachable_first[OF k(1)] k(2)
    have "reachable ?hB x k \<or> reachable ?hB (Suc ?n) k"
      by (auto simp: nth_append Value_init_def)
    then show "x \<notin> set (prev (?hB ! k))"
    proof
      assume "reachable ?hB x k"
      from not_consumer_below[OF d l(2) this] show ?thesis .
    next
      assume "reachable ?hB (Suc ?n) k"
      from reachable_first[OF this] have "k = Suc ?n \<or> reachable ?hB ?n k"
        by (auto simp: nth_append Value_init_def)
      then show ?thesis
      proof
        assume "k = Suc ?n"
        then show ?thesis using assms(3) by (simp add: nth_append Value_init_def)
      next
        assume "reachable ?hB ?n k"
        from reachable_leaf[OF this] have "k = ?n" by (simp add: nth_append Value_init_def)
        then show ?thesis by (simp add: nth_append Value_init_def)
      qed
    qed
  qed
  from backward_single_consumer[OF d r l(1) nc, of lib] obtain hB' where
    b: "backward lib ?v ?hB = Some hB'" and s: "list_all2 same_but_grad ?hB hB'"
    and g1: "grad (hB' ! ?v) = 1"
    and g: "grad (hB' ! x) =
             foldl (+) (if x = ?v then 1 else grad (?hB ! x))
               (contributions lib (backward_fn (?hB ! ?v)) hB' x)"
    by blast
  have "same_but_grad (?hB ! Suc ?n) (hB' ! Suc ?n)" using same_store_nth[OF s, of "Suc ?n"] by simp
  then have dl: "data (hB' ! Suc ?n) = m_pow lib c (- 1)"
    by (simp add: same_but_grad_def nth_append Value_init_def)
  have "grad (hB' ! x) = grad (h ! x) + m_pow lib c (- 1) * 1"
    using g g1 dl assms(3) by (simp add: nth_append)
  with b eq assms(3) show ?thesis by (simp add: nth_append Value_init_def)
qed

section \<open>A node whose only parent is the operand\<close>

lemma backward_only_parent:
  fixes h :: "'a::{one,plus,minus,times} heap"
  assumes "dag h" and "rules_ok h" and "v < length h" and "x < length h"
    and "set (prev (h ! v)) \<subseteq> {x}"
  shows "\<exists>h'. backward lib v h = Some h' \<and> list_all2 same_but_grad h h' \<and> grad (h' ! v) = 1 \<and>
           grad (h' ! x) =
             foldl (+) (if x = v then 1 else grad (h ! x))
               (contributions lib (backward_fn (h ! v)) h' x)"
proof -
  have "x \<notin> set (prev (h ! c))" if "reachable h v c" "c \<noteq> v" for c
  proof -
    from reachable_first[OF that(1)] that(2) assms(5) have "reachable h x c" by auto
    from not_consumer_below[OF assms(1,4) this] show ?thesis .
  qed
  then have "\<forall>c. reachable h v c \<longrightarrow> c \<noteq> v \<longrightarrow> x \<notin> set (prev (h ! c))" by blast
  from backward_single_consumer[OF assms(1-3) this] show ?thesis .
qed

lemma unary_root_gradient:
  fixes h :: "'a::{one,plus,minus,times} heap"
  assumes "dag h" and "rules_ok h" and "x < length h"
    and "set (prev n) \<subseteq> {x}" and "installed (length h) n"
  shows "\<exists>h'. backward lib (length h) (h @ [n]) = Some h' \<and>
           data (h' ! length h) = data n \<and> grad (h' ! length h) = 1 \<and>
           (\<forall>u<length h. data (h' ! u) = data (h ! u)) \<and>
           grad (h' ! x) = foldl (+) (grad (h ! x)) (contributions lib (backward_fn n) h' x)"
proof -
  let ?H = "h @ [n]"
  have d: "dag ?H" using dag_snoc[OF assms(1), of n] assms(3,4) by auto
  have r: "rules_ok ?H" using assms(2,5) by (simp add: rules_ok_snoc)
  have p: "set (prev (?H ! length h)) \<subseteq> {x}" using assms(4) by simp
  from backward_only_parent[OF d r _ _ p, of lib] assms(3) obtain h' where
    b: "backward lib (length h) ?H = Some h'" and s: "list_all2 same_but_grad ?H h'"
    and g1: "grad (h' ! length h) = 1"
    and g: "grad (h' ! x) =
             foldl (+) (if x = length h then 1 else grad (?H ! x))
               (contributions lib (backward_fn (?H ! length h)) h' x)"
    by auto
  have "data (h' ! u) = data (?H ! u)" if "u < length ?H" for u
    using same_store_nth[OF s that] by (simp add: same_but_grad_def)
  then have "data (h' ! length h) = data n" "\<forall>u<length h. data (h' ! u) = data (h ! u)"
    by (auto simp: nth_append)
  with b g1 g assms(3) show ?thesis by (auto simp: nth_append)
qed

lemma unary_gradients:
  fixes h :: "'a::{zero,one,plus,minus,times} heap"
  assumes "dag h" and "rules_ok h" and "x < length h"
  shows "case pow lib x k h of (y, h1) \<Rightarrow>
           \<exists>h2. backward lib y h1 = Some h2 \<and>
             grad (h2 ! x) = grad (h ! x) + k * m_pow lib (data (h ! x)) (k - 1) * 1"
    and "case exp_node lib x h of (y, h1) \<Rightarrow>
           \<exists>h2. backward lib y h1 = Some h2 \<and>
             grad (h2 ! x) = grad (h ! x) + m_exp lib (data (h ! x)) * 1"
    and "case tanh_node lib x h of (y, h1) \<Rightarrow>
           \<exists>h2. backward lib y h1 = Some h2 \<and>
             grad (h2 ! x) = grad (h ! x) + (1 - m_tanh lib (data (h ! x)) * m_tanh lib (data (h ! x))) * 1"
    and "case add x x h of (y, h1) \<Rightarrow>
           \<exists>h2. backward lib y h1 = Some h2 \<and> grad (h2 ! x) = grad (h ! x) + 1 * 1 + 1 * 1"
proof -
  let ?p = "(Value_init (m_pow lib (data (h ! x)) k) [x] (''**'' @ m_to_string lib k) [])
              \<lparr>backward_fn := PowBackward x k (length h)\<rparr>"
  have "pow lib x k h = (length h, h @ [?p])" by (simp add: engine_defs)
  moreover from unary_root_gradient[OF assms, of ?p lib] assms(3)
  have "\<exists>h2. backward lib (length h) (h @ [?p]) = Some h2 \<and>
             grad (h2 ! x) = grad (h ! x) + k * m_pow lib (data (h ! x)) (k - 1) * 1"
    by (auto simp: Value_init_def installed_def)
  ultimately show "case pow lib x k h of (y, h1) \<Rightarrow>
           \<exists>h2. backward lib y h1 = Some h2 \<and>
             grad (h2 ! x) = grad (h ! x) + k * m_pow lib (data (h ! x)) (k - 1) * 1"
    by simp
next
  let ?e = "(Value_init (m_exp lib (data (h ! x))) [x] ''exp'' [])
              \<lparr>backward_fn := ExpBackward x (length h)\<rparr>"
  have "exp_node lib x h = (length h, h @ [?e])" by (simp add: engine_defs)
  moreover from unary_root_gradient[OF assms, of ?e lib] assms(3)
  have "\<exists>h2. backward lib (length h) (h @ [?e]) = Some h2 \<and>
             grad (h2 ! x) = grad (h ! x) + m_exp lib (data (h ! x)) * 1"
    by (auto simp: Value_init_def installed_def)
  ultimately show "case exp_node lib x h of (y, h1) \<Rightarrow>
           \<exists>h2. backward lib y h1 = Some h2 \<and>
             grad (h2 ! x) = grad (h ! x) + m_exp lib (data (h ! x)) * 1"
    by simp
next
  let ?d = "m_tanh lib (data (h ! x))"
  let ?t = "(Value_init ?d [x] ''tanh'' [])\<lparr>backward_fn := TanhBackward x ?d (length h)\<rparr>"
  have "tanh_node lib x h = (length h, h @ [?t])" by (simp add: engine_defs)
  moreover from unary_root_gradient[OF assms, of ?t lib] assms(3)
  have "\<exists>h2. backward lib (length h) (h @ [?t]) = Some h2 \<and>
             grad (h2 ! x) = grad (h ! x) + (1 - ?d * ?d) * 1"
    by (auto simp: Value_init_def installed_def)
  ultimately show "case tanh_node lib x h of (y, h1) \<Rightarrow>
           \<exists>h2. backward lib y h1 = Some h2 \<and>
             grad (h2 ! x) = grad (h ! x) + (1 - m_tanh lib (data (h ! x)) * m_tanh lib (data (h ! x))) * 1"
    by simp
next
  let ?a = "(Value_init (data (h ! x) + data (h ! x)) [x, x] ''+'' [])
              \<lparr>backward_fn := AddBackward x x (length h)\<rparr>"
  have "add x x h = (length h, h @ [?a])" by (simp add: engine_defs)
  moreover from unary_root_gradient[OF assms, of ?a lib] assms(3)
  have "\<exists>h2. backward lib (length h) (h @ [?a]) = Some h2 \<and> grad (h2 ! x) = grad (h ! x) + 1 * 1 + 1 * 1"
    by (auto simp: Value_init_def installed_def)
  ultimately show "case add x x h of (y, h1) \<Rightarrow>
           \<exists>h2. backward lib y h1 = Some h2 \<and> grad (h2 ! x) = grad (h ! x) + 1 * 1 + 1 * 1"
    by simp
qed

section \<open>The claims\<close>

text \<open>
  Claim C1. The program of \<^verbatim>\<open>main\<close>: the leaves \<open>a = 2\<close>, \<open>b = -3\<close>, \<open>c = 10\<close>,
  \<open>f = -2\<close>, then \<open>e = a * b\<close>, \<open>d = e + c\<close>, \<open>L = d * f\<close>, allocated on top of any store
  (the empty one in \<^verbatim>\<open>main\<close>). The call \<open>L.backward()\<close> returns, and afterwards
  \<open>L.data = -8\<close>, \<open>L.grad = 1\<close>, \<open>f.grad = 4\<close>, \<open>d.grad = -2\<close>, \<open>e.grad = -2\<close>,
  \<open>c.grad = -2\<close>, \<open>b.grad = -4\<close> and \<open>a.grad = 6\<close>. Every intermediate value is a small
  integer, on which the arithmetic of \<^verbatim>\<open>double\<close> is exact.
\<close>

theorem canonical_fixture:
  fixes h :: "real heap"
  shows "(case const_node 2 h of (a, h1) \<Rightarrow>
          case const_node (- 3) h1 of (b, h2) \<Rightarrow>
          case const_node 10 h2 of (c, h3) \<Rightarrow>
          case const_node (- 2) h3 of (f, h4) \<Rightarrow>
          case mul a b h4 of (e, h5) \<Rightarrow>
          case add e c h5 of (d, h6) \<Rightarrow>
          case mul d f h6 of (L, h7) \<Rightarrow>
            (\<exists>h8. backward lib L h7 = Some h8 \<and>
               data (h8 ! L) = - 8 \<and> grad (h8 ! L) = 1 \<and> grad (h8 ! f) = 4 \<and>
               grad (h8 ! d) = - 2 \<and> grad (h8 ! e) = - 2 \<and> grad (h8 ! c) = - 2 \<and>
               grad (h8 ! b) = - 4 \<and> grad (h8 ! a) = 6))"
  by (simp add: engine_defs numeral_eq_Suc nth_append)

text \<open>
  Claim C2. In every store that is a directed acyclic graph, the order \<^verbatim>\<open>topo\<close> that
  \<^verbatim>\<open>backward\<close> builds for a node \<open>v\<close> exists, has no repetition, holds exactly the
  nodes reachable from \<open>v\<close> along \<^verbatim>\<open>_prev\<close>, and every parent of a node of the order
  stands at a smaller position than the node. Nodes are addresses, so two leaves of equal
  value are two nodes, and a node shared along two paths is one node.
\<close>

theorem topo_order_post_order:
  assumes "dag h" and "v < length h"
  shows "\<exists>topo. topo_order h v = Some topo \<and> distinct topo \<and>
           set topo = {u. reachable h v u} \<and>
           (\<forall>i<length topo. \<forall>p\<in>set (prev (h ! (topo ! i))). \<exists>j<i. topo ! j = p)"
proof -
  from topo_order_returns[OF dag_closed[OF assms(1)] assms(2)]
  obtain topo where t: "topo_order h v = Some topo" ..
  note p = topo_order_props[OF t assms]
  have "\<exists>j<i. topo ! j = q" if "i < length topo" "q \<in> set (prev (h ! (topo ! i)))" for i q
  proof -
    from p(3) that have "q \<in> set (take i topo)" by (auto simp: parents_first_def)
    then obtain j where "j < length (take i topo)" "take i topo ! j = q"
      by (auto simp: in_set_conv_nth)
    then show ?thesis by (intro exI[of _ j]) simp
  qed
  with t p(1,2) show ?thesis by blast
qed

theorem topo_order_post_order_witness:
  "dag diamond \<and> 4 < length diamond \<and> data (diamond ! 0) = data (diamond ! 1) \<and>
   topo_order diamond 4 = Some [0, 1, 2, 3, 4] \<and>
   {u. reachable diamond 4 u} = {0, 1, 2, 3, 4}"
proof -
  have "ordered diamond" and l: "4 < length diamond"
    by (simp_all add: ordered_def diamond_def engine_defs)
  then have d: "dag diamond" by (simp add: ordered_dag)
  from topo_order_post_order[OF d l] diamond_order
  have "{u. reachable diamond 4 u} = set [0, 1, 2, 3, 4]" by auto
  moreover have "data (diamond ! 0) = data (diamond ! 1)"
    by (simp add: diamond_def engine_defs)
  ultimately show ?thesis using d l diamond_order by simp
qed

text \<open>
  Claim C3. Contributions are added, never overwritten. Let the store be acyclic with the
  builders' closures, and let \<open>x\<close> be a node other than the called node \<open>v\<close> whose
  \<^verbatim>\<open>grad\<close> is 0, as the constructor leaves it. After \<open>v.backward()\<close> the gradient of \<open>x\<close>
  is the sum of the contributions of its consumers, added to 0 one at a time from left to
  right as the code does: the consumers are the nodes of the order that have \<open>x\<close> among their
  parents, in replay order, each contributing the right-hand sides of the \<^verbatim>\<open>+=\<close> statements
  of its closure whose target is \<open>x\<close> (two for a closure that names \<open>x\<close> twice), computed from
  the consumer's final gradient. This part holds for every scalar type, with no law of
  arithmetic. In particular for \<open>y = x + x\<close> on such a node \<open>x\<close>, \<open>y.backward()\<close> leaves
  \<open>x.grad = 0 + 1 * 1 + 1 * 1\<close>, which is 2 in a ring, also for a fresh leaf on any store.
\<close>

theorem gradient_is_sum_of_contributions:
  fixes h :: "'a::{zero,one,plus,minus,times} heap" and hr hr0 :: "'b::ring_1 heap"
  assumes "dag h" and "rules_ok h" and "v < length h" and "x \<noteq> v" and "grad (h ! x) = 0"
  shows "(\<exists>topo h'. topo_order h v = Some topo \<and> backward lib v h = Some h' \<and>
            grad (h' ! x) =
              foldl (+) 0
                (concat (map (\<lambda>c. contributions lib (backward_fn (h ! c)) h' x)
                   (filter (\<lambda>c. x \<in> set (prev (h ! c))) (rev topo))))) \<and>
         (x < length h \<longrightarrow>
            (case add x x h of (y, h1) \<Rightarrow>
               (\<exists>h2. backward lib y h1 = Some h2 \<and> grad (h2 ! x) = 0 + 1 * 1 + 1 * 1))) \<and>
         (dag hr \<and> rules_ok hr \<and> xr < length hr \<and> grad (hr ! xr) = 0 \<longrightarrow>
            (case add xr xr hr of (y, h1) \<Rightarrow>
               (\<exists>h2. backward libr y h1 = Some h2 \<and> grad (h2 ! xr) = 2))) \<and>
         (case const_node a hr0 of (x0, h1) \<Rightarrow>
          case add x0 x0 h1 of (y, h2) \<Rightarrow>
            (\<exists>h3. backward libr y h2 = Some h3 \<and> grad (h3 ! x0) = 2))"
proof -
  from backward_gradient[OF assms(1-3), of lib] obtain topo h' where
    t: "topo_order h v = Some topo" and b: "backward lib v h = Some h'"
    and g: "\<And>x. grad (h' ! x) =
                  foldl (+) (if x = v then 1 else grad (h ! x))
                    (concat (map (\<lambda>c. contributions lib (backward_fn (h ! c)) h' x)
                       (rev topo)))"
    by blast
  have "\<forall>k\<in>set topo. reachable h v k" using topo_order_reachable[OF t] by auto
  then have lt: "\<forall>k\<in>set topo. k < length h"
    using reachable_bound[OF _ dag_closed[OF assms(1)] assms(3)] by blast
  have z: "\<forall>c\<in>set (rev topo). \<not> x \<in> set (prev (h ! c)) \<longrightarrow>
             contributions lib (backward_fn (h ! c)) h' x = []"
  proof (intro ballI impI)
    fix c assume "c \<in> set (rev topo)" and n: "x \<notin> set (prev (h ! c))"
    with lt assms(2) have "installed c (h ! c)" by (simp add: rules_ok_iff)
    from contributions_none[OF this n]
    show "contributions lib (backward_fn (h ! c)) h' x = []" .
  qed
  have "grad (h' ! x) =
      foldl (+) 0 (concat (map (\<lambda>c. contributions lib (backward_fn (h ! c)) h' x) (rev topo)))"
    using g[of x] assms(4,5) by simp
  then have 1: "grad (h' ! x) =
      foldl (+) 0
        (concat (map (\<lambda>c. contributions lib (backward_fn (h ! c)) h' x)
           (filter (\<lambda>c. x \<in> set (prev (h ! c))) (rev topo))))"
    unfolding concat_consumers[OF z] .
  have 2: "(case const_node a hr0 of (x0, h1) \<Rightarrow>
          case add x0 x0 h1 of (y, h2) \<Rightarrow>
            (\<exists>h3. backward libr y h2 = Some h3 \<and> grad (h3 ! x0) = 2))"
    by (simp add: engine_defs nth_append)
  have 3: "x < length h \<longrightarrow>
            (case add x x h of (y, h1) \<Rightarrow>
               (\<exists>h2. backward lib y h1 = Some h2 \<and> grad (h2 ! x) = 0 + 1 * 1 + 1 * 1))"
  proof
    assume "x < length h"
    from unary_gradients(4)[OF assms(1,2) this, of lib] assms(5)
    show "case add x x h of (y, h1) \<Rightarrow>
               (\<exists>h2. backward lib y h1 = Some h2 \<and> grad (h2 ! x) = 0 + 1 * 1 + 1 * 1)"
      by (simp add: split_beta)
  qed
  have 4: "dag hr \<and> rules_ok hr \<and> xr < length hr \<and> grad (hr ! xr) = 0 \<longrightarrow>
            (case add xr xr hr of (y, h1) \<Rightarrow>
               (\<exists>h2. backward libr y h1 = Some h2 \<and> grad (h2 ! xr) = 2))"
  proof (intro impI, elim conjE)
    assume a: "dag hr" "rules_ok hr" "xr < length hr" and z: "grad (hr ! xr) = 0"
    from unary_gradients(4)[OF a, of libr] z
    show "case add xr xr hr of (y, h1) \<Rightarrow>
               (\<exists>h2. backward libr y h1 = Some h2 \<and> grad (h2 ! xr) = 2)"
      by (simp add: split_beta)
  qed
  from t b 1 have 0: "\<exists>topo h'. topo_order h v = Some topo \<and> backward lib v h = Some h' \<and>
            grad (h' ! x) =
              foldl (+) 0
                (concat (map (\<lambda>c. contributions lib (backward_fn (h ! c)) h' x)
                   (filter (\<lambda>c. x \<in> set (prev (h ! c))) (rev topo))))" by blast
  show ?thesis by (intro conjI) (rule 0 3 4 2)+
qed

theorem gradient_is_sum_of_contributions_witness:
  "dag absorbed \<and> rules_ok absorbed \<and> 8 < length absorbed \<and> (0::nat) \<noteq> 8 \<and>
   grad (absorbed ! 0) = 0 \<and> 0 < length absorbed \<and>
   topo_order absorbed 8 = Some [0, 2, 4, 3, 5, 6, 1, 7, 8] \<and>
   filter (\<lambda>c. 0 \<in> set (prev (absorbed ! c))) (rev [0, 2, 4, 3, 5, 6, 1, 7, 8]) = [7, 5, 4] \<and>
   (\<forall>lib. map_option (\<lambda>h'. (grad (h' ! 0),
              concat (map (\<lambda>c. contributions lib (backward_fn (absorbed ! c)) h' 0) [7, 5, 4])))
            (backward lib 8 absorbed) =
          Some (Rounded 9007199254740992, [Rounded 9007199254740992, Rounded 1, Rounded 1])) \<and>
   foldl (+) 0 [Rounded 9007199254740992, Rounded 1, Rounded 1] = Rounded 9007199254740992 \<and>
   Rounded 9007199254740992 + (Rounded 1 + Rounded 1) = Rounded 9007199254740994 \<and>
   (\<forall>lib. map_option (map grad) (backward lib 1 (snd (add 0 0 (snd (const_node (Rounded 1) []))))) =
          Some [Rounded 2, Rounded 1]) \<and>
   dag diamond \<and> rules_ok diamond \<and> 0 < length diamond \<and> grad (diamond ! 0) = 0 \<and>
   map_option (map grad) (backward real_libm 4 diamond) = Some [3, 3, 2, 1, 1] \<and>
   map_option (map grad) (backward real_libm 5 (snd (add 0 0 diamond))) =
     Some [2, 0, 0, 0, 0, 1]"
proof -
  have "ordered absorbed" by (simp add: ordered_def absorbed_def engine_defs)
  then have 1: "dag absorbed" "rules_ok absorbed" "8 < length absorbed" "(0::nat) \<noteq> 8"
    "grad (absorbed ! 0) = 0"
    by (simp_all add: ordered_dag rules_ok_def installed_def absorbed_def engine_defs)
  have 2: "0 < length absorbed"
    "topo_order absorbed 8 = Some [0, 2, 4, 3, 5, 6, 1, 7, 8]"
    "filter (\<lambda>c. 0 \<in> set (prev (absorbed ! c))) (rev [0, 2, 4, 3, 5, 6, 1, 7, 8]) = [7, 5, 4]"
    by (simp_all add: topo_order_def absorbed_def engine_defs numeral_eq_Suc)
  have 3: "map_option (\<lambda>h'. (grad (h' ! 0),
              concat (map (\<lambda>c. contributions lib (backward_fn (absorbed ! c)) h' 0) [7, 5, 4])))
            (backward lib 8 absorbed) =
          Some (Rounded 9007199254740992, [Rounded 9007199254740992, Rounded 1, Rounded 1])"
    for lib
    by (simp add: absorbed_def engine_defs rounded_defs numeral_eq_Suc)
  have 4: "foldl (+) 0 [Rounded 9007199254740992, Rounded 1, Rounded 1] =
      Rounded 9007199254740992"
    "Rounded 9007199254740992 + (Rounded 1 + Rounded 1) = Rounded 9007199254740994"
    by (simp_all add: rounded_defs)
  have 5: "map_option (map grad)
      (backward lib 1 (snd (add 0 0 (snd (const_node (Rounded 1) []))))) =
          Some [Rounded 2, Rounded 1]" for lib
    by (simp add: engine_defs rounded_defs)
  have "ordered diamond" by (simp add: ordered_def diamond_def engine_defs)
  then have 6: "dag diamond" "rules_ok diamond" "0 < length diamond" "grad (diamond ! 0) = 0"
    by (simp_all add: ordered_dag rules_ok_def installed_def diamond_def engine_defs)
  have 7: "map_option (map grad) (backward real_libm 4 diamond) = Some [3, 3, 2, 1, 1]"
    "map_option (map grad) (backward real_libm 5 (snd (add 0 0 diamond))) =
     Some [2, 0, 0, 0, 0, 1]"
    by (simp_all add: diamond_def engine_defs numeral_eq_Suc)
  from gradient_is_sum_of_contributions
         [OF 1, where hr = diamond and xr = 0 and libr = real_libm]
       1 2 3 4 5 6 7
  show ?thesis by simp
qed

text \<open>
  Claim C4. In an acyclic store with the builders' closures, whatever the gradients were
  before the call, \<open>v.backward()\<close> returns a store of the same shape in which \<open>v.grad\<close> is
  exactly 1, and in which the gradient of every other node is its gradient before the call
  with the contributions of this pass added to it one at a time from left to right, in
  replay order: nothing is reset. So a second pass adds to what the first one left. The
  statement holds for every scalar type, with no law of arithmetic; where addition rounds,
  a summand may be absorbed, as in the code.
\<close>

theorem backward_reseeds_and_accumulates:
  fixes h :: "'a::{one,plus,minus,times} heap"
  assumes "dag h" and "rules_ok h" and "v < length h"
  shows "\<exists>topo h'. topo_order h v = Some topo \<and> backward lib v h = Some h' \<and>
           dag h' \<and> rules_ok h' \<and> length h' = length h \<and>
           grad (h' ! v) = 1 \<and>
           (\<forall>x. x \<noteq> v \<longrightarrow>
              grad (h' ! x) =
                foldl (+) (grad (h ! x))
                  (concat (map (\<lambda>c. contributions lib (backward_fn (h ! c)) h' x)
                     (rev topo))))"
proof -
  from backward_gradient[OF assms, of lib] obtain topo h' where
    t: "topo_order h v = Some topo" and b: "backward lib v h = Some h'"
    and r: "grad (h' ! v) = 1"
    and g: "\<And>x. grad (h' ! x) =
                  foldl (+) (if x = v then 1 else grad (h ! x))
                    (concat (map (\<lambda>c. contributions lib (backward_fn (h ! c)) h' x)
                       (rev topo)))"
    by blast
  note s = backward_same[OF b]
  have "dag h'" "rules_ok h'" "length h' = length h"
    using same_store_dag[OF s] same_store_rules_ok[OF s] assms list_all2_lengthD[OF s]
    by simp_all
  moreover have "\<forall>x. x \<noteq> v \<longrightarrow> grad (h' ! x) =
      foldl (+) (grad (h ! x))
        (concat (map (\<lambda>c. contributions lib (backward_fn (h ! c)) h' x) (rev topo)))"
    using g by simp
  ultimately show ?thesis using t b r by blast
qed

theorem backward_reseeds_and_accumulates_witness:
  "backward real_libm 2 shared_operand = Some shared_operand_once \<and>
   dag shared_operand_once \<and> rules_ok shared_operand_once \<and> 2 < length shared_operand_once \<and>
   map_option (map grad) (backward real_libm 2 shared_operand_once) = Some [4, 0, 1] \<and>
   dag saturated_operand \<and> rules_ok saturated_operand \<and> 1 < length saturated_operand \<and>
   topo_order saturated_operand 1 = Some [0, 1] \<and>
   (\<forall>lib. map_option (\<lambda>h'. (map grad h',
              concat (map (\<lambda>c. contributions lib (backward_fn (saturated_operand ! c)) h' 0)
                (rev [0, 1]))))
            (backward lib 1 saturated_operand) =
          Some ([Rounded 9007199254740992, Rounded 1], [Rounded 1, Rounded 1])) \<and>
   foldl (+) (Rounded 9007199254740992) [Rounded 1, Rounded 1] = Rounded 9007199254740992"
proof -
  have "ordered shared_operand_once" by (simp add: ordered_def shared_operand_once_def)
  then have 1: "dag shared_operand_once" "rules_ok shared_operand_once"
    "2 < length shared_operand_once"
    by (simp_all add: ordered_dag rules_ok_def installed_def shared_operand_once_def)
  have 2: "backward real_libm 2 shared_operand = Some shared_operand_once"
    by (simp add: shared_operand_def shared_operand_once_def engine_defs numeral_eq_Suc)
  have 3: "map_option (map grad) (backward real_libm 2 shared_operand_once) = Some [4, 0, 1]"
    by (simp add: shared_operand_once_def engine_defs numeral_eq_Suc)
  have "ordered saturated_operand" by (simp add: ordered_def saturated_operand_def)
  then have 4: "dag saturated_operand" "rules_ok saturated_operand"
    "1 < length saturated_operand"
    by (simp_all add: ordered_dag rules_ok_def installed_def saturated_operand_def)
  have 5: "topo_order saturated_operand 1 = Some [0, 1]"
    by (simp add: topo_order_def saturated_operand_def)
  have 6: "map_option (\<lambda>h'. (map grad h',
              concat (map (\<lambda>c. contributions lib (backward_fn (saturated_operand ! c)) h' 0)
                (rev [0, 1]))))
            (backward lib 1 saturated_operand) =
          Some ([Rounded 9007199254740992, Rounded 1], [Rounded 1, Rounded 1])" for lib
    by (simp add: saturated_operand_def engine_defs rounded_defs)
  have 7: "foldl (+) (Rounded 9007199254740992) [Rounded 1, Rounded 1] =
      Rounded 9007199254740992"
    by (simp add: rounded_defs)
  from backward_reseeds_and_accumulates[OF 1, of real_libm]
       backward_reseeds_and_accumulates[OF 4]
       1 2 3 4 5 6 7
  show ?thesis by simp
qed

text \<open>
  Claim C5. The closure that \<^verbatim>\<open>pow(x, k)\<close> installs adds
  \<open>k * pow(x.data, k - 1) * out.grad\<close> to \<open>x.grad\<close>, the closure of \<^verbatim>\<open>exp(x)\<close> adds
  \<open>out.data * out.grad\<close>, and the closure of \<^verbatim>\<open>tanh(x)\<close> adds
  \<open>(1 - out.data\<^sup>2) * out.grad\<close>, in whatever store they are called (for \<^verbatim>\<open>tanh\<close>: in
  which \<open>out.data\<close> is still the value the builder stored). With a math library for which
  \<open>tanh 0 = 0\<close> and \<open>exp 0 = 1\<close>, as C requires, \<open>backward()\<close> on \<open>tanh(x)\<close> and on
  \<open>exp(x)\<close> returns and leaves \<open>x.grad = 1\<close>, for every node \<open>x\<close> of value 0 and
  gradient 0 in an acyclic store with the builders' closures, and for a fresh leaf of
  value 0 on any store.
\<close>

theorem unary_rules:
  fixes h :: "'a::ring_1 heap"
  assumes "m_tanh lib 0 = 0" and "m_exp lib 0 = 1"
  shows "(case pow lib x k h of (out, h1) \<Rightarrow>
            \<forall>g. call lib (backward_fn (h1 ! out)) g =
                  add_grad x (k * m_pow lib (data (g ! x)) (k - 1) * grad (g ! out)) g) \<and>
         (case exp_node lib x h of (out, h1) \<Rightarrow>
            \<forall>g. call lib (backward_fn (h1 ! out)) g =
                  add_grad x (data (g ! out) * grad (g ! out)) g) \<and>
         (case tanh_node lib x h of (out, h1) \<Rightarrow>
            \<forall>g. data (g ! out) = data (h1 ! out) \<longrightarrow>
                  call lib (backward_fn (h1 ! out)) g =
                  add_grad x ((1 - (data (g ! out))\<^sup>2) * grad (g ! out)) g) \<and>
         (dag h \<and> rules_ok h \<and> x < length h \<and> data (h ! x) = 0 \<and> grad (h ! x) = 0 \<longrightarrow>
            (case tanh_node lib x h of (y, h1) \<Rightarrow>
               (\<exists>h2. backward lib y h1 = Some h2 \<and> grad (h2 ! x) = 1)) \<and>
            (case exp_node lib x h of (y, h1) \<Rightarrow>
               (\<exists>h2. backward lib y h1 = Some h2 \<and> grad (h2 ! x) = 1))) \<and>
         (case const_node 0 h of (x0, h1) \<Rightarrow>
          case tanh_node lib x0 h1 of (y, h2) \<Rightarrow>
            (\<exists>h3. backward lib y h2 = Some h3 \<and> grad (h3 ! x0) = 1)) \<and>
         (case const_node 0 h of (x0, h1) \<Rightarrow>
          case exp_node lib x0 h1 of (y, h2) \<Rightarrow>
            (\<exists>h3. backward lib y h2 = Some h3 \<and> grad (h3 ! x0) = 1))"
proof -
  have 1: "case pow lib x k h of (out, h1) \<Rightarrow>
            \<forall>g. call lib (backward_fn (h1 ! out)) g =
                  add_grad x (k * m_pow lib (data (g ! x)) (k - 1) * grad (g ! out)) g"
    by (simp add: engine_defs)
  have 2: "case exp_node lib x h of (out, h1) \<Rightarrow>
            \<forall>g. call lib (backward_fn (h1 ! out)) g =
                  add_grad x (data (g ! out) * grad (g ! out)) g"
    by (simp add: engine_defs)
  have 3: "case tanh_node lib x h of (out, h1) \<Rightarrow>
            \<forall>g. data (g ! out) = data (h1 ! out) \<longrightarrow>
                  call lib (backward_fn (h1 ! out)) g =
                  add_grad x ((1 - (data (g ! out))\<^sup>2) * grad (g ! out)) g"
    by (simp add: engine_defs power2_eq_square)
  have 4: "case const_node 0 h of (x0, h1) \<Rightarrow>
          case tanh_node lib x0 h1 of (y, h2) \<Rightarrow>
            (\<exists>h3. backward lib y h2 = Some h3 \<and> grad (h3 ! x0) = 1)"
    using assms(1) by (simp add: engine_defs nth_append)
  have 5: "case const_node 0 h of (x0, h1) \<Rightarrow>
          case exp_node lib x0 h1 of (y, h2) \<Rightarrow>
            (\<exists>h3. backward lib y h2 = Some h3 \<and> grad (h3 ! x0) = 1)"
    using assms(2) by (simp add: engine_defs nth_append)
  have 6: "dag h \<and> rules_ok h \<and> x < length h \<and> data (h ! x) = 0 \<and> grad (h ! x) = 0 \<longrightarrow>
            (case tanh_node lib x h of (y, h1) \<Rightarrow>
               (\<exists>h2. backward lib y h1 = Some h2 \<and> grad (h2 ! x) = 1)) \<and>
            (case exp_node lib x h of (y, h1) \<Rightarrow>
               (\<exists>h2. backward lib y h1 = Some h2 \<and> grad (h2 ! x) = 1))"
  proof (intro impI, elim conjE)
    assume a: "dag h" "rules_ok h" "x < length h" and z: "data (h ! x) = 0" "grad (h ! x) = 0"
    from unary_gradients(3)[OF a, of lib] z assms(1)
    have "case tanh_node lib x h of (y, h1) \<Rightarrow>
               (\<exists>h2. backward lib y h1 = Some h2 \<and> grad (h2 ! x) = 1)"
      by (simp add: split_beta)
    moreover from unary_gradients(2)[OF a, of lib] z assms(2)
    have "case exp_node lib x h of (y, h1) \<Rightarrow>
               (\<exists>h2. backward lib y h1 = Some h2 \<and> grad (h2 ! x) = 1)"
      by (simp add: split_beta)
    ultimately show "(case tanh_node lib x h of (y, h1) \<Rightarrow>
               (\<exists>h2. backward lib y h1 = Some h2 \<and> grad (h2 ! x) = 1)) \<and>
            (case exp_node lib x h of (y, h1) \<Rightarrow>
               (\<exists>h2. backward lib y h1 = Some h2 \<and> grad (h2 ! x) = 1))" ..
  qed
  from 1 2 3 6 4 5 show ?thesis by (intro conjI)
qed

theorem unary_rules_witness:
  "m_tanh real_libm 0 = 0 \<and> m_exp real_libm 0 = 1 \<and>
   dag zero_leaf \<and> rules_ok zero_leaf \<and> 0 < length zero_leaf \<and>
   data (zero_leaf ! 0) = 0 \<and> grad (zero_leaf ! 0) = 0 \<and>
   map_option (map grad) (backward real_libm 1 (snd (tanh_node real_libm 0 zero_leaf))) =
     Some [1, 1] \<and>
   map_option (map grad) (backward real_libm 1 (snd (exp_node real_libm 0 zero_leaf))) =
     Some [1, 1] \<and>
   map_option (map grad)
     (backward real_libm 1 (snd (pow real_libm 0 2 (snd (const_node 3 []))))) = Some [6, 1]"
proof -
  have a: "m_tanh real_libm 0 = 0" "m_exp real_libm 0 = 1"
    by (simp_all add: real_libm_def)
  have "ordered zero_leaf" by (simp add: ordered_def zero_leaf_def engine_defs)
  then have z: "dag zero_leaf" "rules_ok zero_leaf" "0 < length zero_leaf"
    "data (zero_leaf ! 0) = 0" "grad (zero_leaf ! 0) = 0"
    by (simp_all add: ordered_dag rules_ok_def installed_def zero_leaf_def engine_defs)
  have p: "map_option (map grad)
     (backward real_libm 1 (snd (pow real_libm 0 2 (snd (const_node 3 []))))) = Some [6, 1]"
    by (simp add: engine_defs real_libm_def)
  have e: "map_option (map grad) (backward real_libm 1 (snd (tanh_node real_libm 0 zero_leaf))) =
     Some [1, 1]"
    "map_option (map grad) (backward real_libm 1 (snd (exp_node real_libm 0 zero_leaf))) =
     Some [1, 1]"
    by (simp_all add: zero_leaf_def engine_defs real_libm_def)
  from unary_rules[OF a, where x = 0 and h = zero_leaf] z p e a show ?thesis
    by simp
qed

text \<open>
  Claim C6. Unary minus is \<open>multiply(x, constant(-1))\<close>, binary minus on two nodes is
  \<open>add(x, negate(y))\<close> and division of two nodes is \<open>multiply(x, power(y, -1))\<close>: each
  builder of the source returns the same address and the same store as the composition the
  specification words, so its output value is the composition's (\<open>x * -1\<close>,
  \<open>x + y * -1\<close>, \<open>x * pow(y, -1)\<close>) and a backward pass from it is the same pass.
\<close>

theorem builders_refine_compositions:
  fixes h :: "'a::{zero,one,plus,minus,uminus,times} heap"
  assumes "x < length h" and "y < length h"
  shows "neg x h = negate_spec x h \<and>
         sub_nn x y h = subtract_spec x y h \<and>
         div_nn lib x y h = divide_spec lib x y h \<and>
         (case neg x h of (out, h') \<Rightarrow> data (h' ! out) = data (h ! x) * (- 1)) \<and>
         (case sub_nn x y h of (out, h') \<Rightarrow>
            data (h' ! out) = data (h ! x) + data (h ! y) * (- 1)) \<and>
         (case div_nn lib x y h of (out, h') \<Rightarrow>
            data (h' ! out) = data (h ! x) * m_pow lib (data (h ! y)) (- 1)) \<and>
         (case neg x h of (out, h') \<Rightarrow> case negate_spec x h of (out', h'') \<Rightarrow>
            backward lib out h' = backward lib out' h'') \<and>
         (case sub_nn x y h of (out, h') \<Rightarrow> case subtract_spec x y h of (out', h'') \<Rightarrow>
            backward lib out h' = backward lib out' h'') \<and>
         (case div_nn lib x y h of (out, h') \<Rightarrow> case divide_spec lib x y h of (out', h'') \<Rightarrow>
            backward lib out h' = backward lib out' h'')"
proof -
  have 1: "neg x h = negate_spec x h"
    by (simp add: neg_def mul_nd_def negate_spec_def)
  have 2: "sub_nn x y h = subtract_spec x y h"
    by (simp add: sub_nn_def subtract_spec_def neg_def mul_nd_def negate_spec_def)
  have 3: "div_nn lib x y h = divide_spec lib x y h"
    by (simp add: div_nn_def divide_spec_def)
  have 4: "case neg x h of (out, h') \<Rightarrow> data (h' ! out) = data (h ! x) * (- 1)"
    using assms by (simp add: composite_defs engine_defs nth_append)
  have 5: "case sub_nn x y h of (out, h') \<Rightarrow>
            data (h' ! out) = data (h ! x) + data (h ! y) * (- 1)"
    using assms by (simp add: composite_defs engine_defs nth_append)
  have 6: "case div_nn lib x y h of (out, h') \<Rightarrow>
            data (h' ! out) = data (h ! x) * m_pow lib (data (h ! y)) (- 1)"
    using assms by (simp add: composite_defs engine_defs nth_append)
  show ?thesis
    unfolding 1[symmetric] 2[symmetric] 3[symmetric]
    using 4 5 6 by (simp add: split_beta)
qed

theorem builders_refine_compositions_witness:
  "0 < length operands \<and> 1 < length operands \<and>
   neg 0 operands = negate_spec 0 operands \<and>
   sub_nn 0 1 operands = subtract_spec 0 1 operands \<and>
   div_nn real_libm 0 1 operands = divide_spec real_libm 0 1 operands \<and>
   map data (snd (neg 0 operands)) = [6, 2, - 1, - 6] \<and>
   map data (snd (sub_nn 0 1 operands)) = [6, 2, - 1, - 2, 4] \<and>
   map data (snd (div_nn real_libm 0 1 operands)) = [6, 2, 1 / 2, 3] \<and>
   map_option (map grad) (backward real_libm 3 (snd (neg 0 operands))) = Some [- 1, 0, 6, 1] \<and>
   map_option (map grad) (backward real_libm 4 (snd (sub_nn 0 1 operands))) =
     Some [1, - 1, 2, 1, 1] \<and>
   map_option (map grad) (backward real_libm 3 (snd (div_nn real_libm 0 1 operands))) =
     Some [1 / 2, - 3 / 2, 6, 1]"
proof -
  have l: "0 < length operands" "1 < length operands"
    by (simp_all add: operands_def engine_defs)
  have p: "(2::real) powr - 1 = 1 / 2" "(2::real) powr - 2 = 1 / 4"
    by (simp_all add: powr_minus_divide)
  have e: "map data (snd (neg 0 operands)) = [6, 2, - 1, - 6]"
    "map data (snd (sub_nn 0 1 operands)) = [6, 2, - 1, - 2, 4]"
    "map data (snd (div_nn real_libm 0 1 operands)) = [6, 2, 1 / 2, 3]"
    by (simp_all add: operands_def composite_defs engine_defs real_libm_def p)
  have g: "map_option (map grad) (backward real_libm 3 (snd (neg 0 operands))) =
      Some [- 1, 0, 6, 1]"
    "map_option (map grad) (backward real_libm 4 (snd (sub_nn 0 1 operands))) =
      Some [1, - 1, 2, 1, 1]"
    "map_option (map grad) (backward real_libm 3 (snd (div_nn real_libm 0 1 operands))) =
      Some [1 / 2, - 3 / 2, 6, 1]"
    by (simp_all add: operands_def composite_defs engine_defs real_libm_def p numeral_eq_Suc)
  from builders_refine_compositions[OF l, of real_libm] l e g show ?thesis by simp
qed

text \<open>
  Claim C7, as stated (every overload with one raw scalar promotes the scalar to a fresh leaf
  and applies the builder on two nodes to it), fails for \<^verbatim>\<open>operator/(node, double)\<close>: for
  \<open>x / 2\<close> with \<open>x = 6\<close> the source allocates a leaf of value \<open>1/2\<close> and a product node,
  where \<open>constant(2)\<close> followed by division of two nodes allocates a leaf of value 2, a
  power node and a product node.
\<close>

theorem scalar_promotion_counterexample:
  "div_nd 0 2 operands \<noteq> promote_right (div_nn real_libm) 0 2 operands \<and>
   map data (snd (div_nd 0 2 operands)) = [6, 2, 1 / 2, 3] \<and>
   map prev (snd (div_nd 0 2 operands)) = [[], [], [], [0, 2]] \<and>
   map data (snd (promote_right (div_nn real_libm) 0 2 operands)) = [6, 2, 2, 1 / 2, 3] \<and>
   map prev (snd (promote_right (div_nn real_libm) 0 2 operands)) = [[], [], [], [2], [0, 3]]"
proof -
  have p: "(2::real) powr - 1 = 1 / 2" by (simp add: powr_minus_divide)
  show ?thesis
    by (simp add: operands_def promote_right_def composite_defs engine_defs real_libm_def p)
qed

text \<open>
  Claim C7, amended. For addition, multiplication and subtraction with a raw scalar on either
  side, and for division with the scalar as numerator, the overload is \<open>constant(scalar)\<close>
  followed by the builder on two nodes. \<open>node / scalar\<close> is
  \<open>multiply(node, constant(1 / scalar))\<close>; in an acyclic store with the builders' closures,
  and with a math library for which \<open>pow(scalar, -1) = 1 / scalar\<close>, its value and the
  gradient that \<open>backward()\<close> leaves on the node operand are those of \<open>constant(scalar)\<close>
  followed by division of two nodes.
\<close>

theorem scalar_promotion:
  fixes h :: "'a::division_ring heap"
  shows "add_nd x c h = promote_right add x c h \<and>
         add_dn c x h = promote_left add c x h \<and>
         mul_nd x c h = promote_right mul x c h \<and>
         mul_dn c x h = promote_left mul c x h \<and>
         sub_nd x c h = promote_right sub_nn x c h \<and>
         sub_dn c x h = promote_left sub_nn c x h \<and>
         div_dn lib c x h = promote_left (div_nn lib) c x h \<and>
         div_nd x c h = promote_right mul x (1 / c) h \<and>
         (dag h \<and> rules_ok h \<and> x < length h \<and> m_pow lib c (- 1) = 1 / c \<longrightarrow>
            (case div_nd x c h of (out, hA) \<Rightarrow>
             case promote_right (div_nn lib) x c h of (out', hB) \<Rightarrow>
               data (hA ! out) = data (hB ! out') \<and>
               (\<exists>hA' hB'. backward lib out hA = Some hA' \<and> backward lib out' hB = Some hB' \<and>
                  grad (hA' ! x) = grad (hB' ! x))))"
proof -
  have 1: "add_nd x c h = promote_right add x c h" "add_dn c x h = promote_left add c x h"
    "mul_nd x c h = promote_right mul x c h" "mul_dn c x h = promote_left mul c x h"
    by (simp_all add: add_nd_def add_dn_def mul_nd_def mul_dn_def promote_right_def
        promote_left_def)
  have 2: "sub_nd x c h = promote_right sub_nn x c h" "sub_dn c x h = promote_left sub_nn c x h"
    by (simp_all add: sub_nd_def sub_dn_def sub_nn_def promote_right_def promote_left_def)
  have 3: "div_dn lib c x h = promote_left (div_nn lib) c x h"
    "div_nd x c h = promote_right mul x (1 / c) h"
    by (simp_all add: div_dn_def div_nn_def div_nd_def mul_nd_def promote_right_def
        promote_left_def)
  have 4: "case div_nd x c h of (out, hA) \<Rightarrow>
             case promote_right (div_nn lib) x c h of (out', hB) \<Rightarrow>
               data (hA ! out) = data (hB ! out') \<and>
               (\<exists>hA' hB'. backward lib out hA = Some hA' \<and> backward lib out' hB = Some hB' \<and>
                  grad (hA' ! x) = grad (hB' ! x))"
    if a: "dag h" "rules_ok h" "x < length h" and m: "m_pow lib c (- 1) = 1 / c"
    using div_nd_gradient[OF a, of c lib] div_nn_promoted_gradient[OF a, of lib c] m
    by (auto simp: split_beta)
  have 5: "dag h \<and> rules_ok h \<and> x < length h \<and> m_pow lib c (- 1) = 1 / c \<longrightarrow>
            (case div_nd x c h of (out, hA) \<Rightarrow>
             case promote_right (div_nn lib) x c h of (out', hB) \<Rightarrow>
               data (hA ! out) = data (hB ! out') \<and>
               (\<exists>hA' hB'. backward lib out hA = Some hA' \<and> backward lib out' hB = Some hB' \<and>
                  grad (hA' ! x) = grad (hB' ! x)))"
    by (intro impI, elim conjE) (rule 4; assumption)
  show ?thesis by (intro conjI) (rule 1 2 3 5)+
qed

theorem scalar_promotion_witness:
  "dag operands \<and> rules_ok operands \<and> 0 < length operands \<and>
   m_pow real_libm 2 (- 1) = 1 / 2 \<and>
   div_nd 0 2 operands = promote_right mul 0 (1 / 2) operands \<and>
   map data (snd (div_nd 0 2 operands)) = [6, 2, 1 / 2, 3] \<and>
   map data (snd (promote_right (div_nn real_libm) 0 2 operands)) = [6, 2, 2, 1 / 2, 3] \<and>
   map_option (map grad) (backward real_libm 3 (snd (div_nd 0 2 operands))) =
     Some [1 / 2, 0, 6, 1] \<and>
   map_option (map grad)
     (backward real_libm 4 (snd (promote_right (div_nn real_libm) 0 2 operands))) =
     Some [1 / 2, 0, - 3 / 2, 6, 1]"
proof -
  have "ordered operands" by (simp add: ordered_def operands_def engine_defs)
  then have a: "dag operands" "rules_ok operands" "0 < length operands"
    by (simp_all add: ordered_dag rules_ok_def installed_def operands_def engine_defs)
  have p: "(2::real) powr - 1 = 1 / 2" "(2::real) powr - 2 = 1 / 4"
    by (simp_all add: powr_minus_divide)
  have m: "m_pow real_libm 2 (- 1) = 1 / 2" by (simp add: real_libm_def p)
  have e: "map data (snd (div_nd 0 2 operands)) = [6, 2, 1 / 2, 3]"
    "map data (snd (promote_right (div_nn real_libm) 0 2 operands)) = [6, 2, 2, 1 / 2, 3]"
    by (simp_all add: operands_def promote_right_def composite_defs engine_defs real_libm_def p)
  have g: "map_option (map grad) (backward real_libm 3 (snd (div_nd 0 2 operands))) =
     Some [1 / 2, 0, 6, 1]"
    "map_option (map grad)
     (backward real_libm 4 (snd (promote_right (div_nn real_libm) 0 2 operands))) =
     Some [1 / 2, 0, - 3 / 2, 6, 1]"
    by (simp_all add: operands_def promote_right_def composite_defs engine_defs real_libm_def p
        numeral_eq_Suc)
  from scalar_promotion[of 0 2 operands real_libm] a m e g show ?thesis by simp
qed

text \<open>
  Claim C8. Every builder leaves every node of the store it is given exactly as it was, in
  all fields, and returns a node it has allocated; \<open>backward()\<close> returns a store of the
  same length whose nodes differ from the old ones in \<^verbatim>\<open>grad\<close> at most.
\<close>

theorem builders_and_backward_frame:
  fixes h :: "'a::{zero,one,plus,minus,uminus,times,inverse} heap"
  shows "allocates h (const_node a h) \<and>
         allocates h (add self other h) \<and> allocates h (add_nd self a h) \<and>
         allocates h (add_dn a other h) \<and>
         allocates h (mul self other h) \<and> allocates h (mul_nd self a h) \<and>
         allocates h (mul_dn a other h) \<and>
         allocates h (pow lib self a h) \<and>
         allocates h (div_nn lib self other h) \<and> allocates h (div_nd self a h) \<and>
         allocates h (div_dn lib a other h) \<and>
         allocates h (neg self h) \<and>
         allocates h (sub_nn self other h) \<and> allocates h (sub_nd self a h) \<and>
         allocates h (sub_dn a other h) \<and>
         allocates h (exp_node lib self h) \<and> allocates h (tanh_node lib self h) \<and>
         (\<forall>h'. backward lib v h = Some h' \<longrightarrow> list_all2 same_but_grad h h')"
  by (intro conjI allI impI) (simp_all add: frame_builders backward_same)

theorem builders_and_backward_frame_witness:
  "allocates shared_operand (mul 0 1 shared_operand) \<and>
   snd (mul 0 1 shared_operand) =
     shared_operand @
       [\<lparr>data = 21, grad = 0, backward_fn = MulBackward 0 1 3, prev = [0, 1], op = ''*'',
         label = []\<rparr>] \<and>
   backward real_libm 2 shared_operand = Some shared_operand_once \<and>
   list_all2 same_but_grad shared_operand shared_operand_once \<and>
   map grad shared_operand = [0, 0, 0] \<and> map grad shared_operand_once = [2, 0, 1]"
proof -
  have b: "backward real_libm 2 shared_operand = Some shared_operand_once"
    by (simp add: shared_operand_def shared_operand_once_def engine_defs numeral_eq_Suc)
  have m: "snd (mul 0 1 shared_operand) =
     shared_operand @
       [\<lparr>data = 21, grad = 0, backward_fn = MulBackward 0 1 3, prev = [0, 1], op = ''*'',
         label = []\<rparr>]"
    "map grad shared_operand = [0, 0, 0]" "map grad shared_operand_once = [2, 0, 1]"
    by (simp_all add: shared_operand_def shared_operand_once_def engine_defs)
  from builders_and_backward_frame
         [where h = shared_operand and self = 0 and other = 1 and lib = real_libm and v = 2]
       b m
  show ?thesis by simp
qed

text \<open>
  Claim C9. In a closed store with the builders' closures, \<open>v.backward()\<close> returns and
  leaves every node that is not reachable from \<open>v\<close> as it was; on a node without parents
  it does nothing but set that node's \<^verbatim>\<open>grad\<close> to 1.
\<close>

theorem backward_touches_reachable_only:
  assumes "rules_ok h" and "closed h" and "v < length h"
  shows "(\<exists>h'. backward lib v h = Some h' \<and> (\<forall>x. \<not> reachable h v x \<longrightarrow> h' ! x = h ! x)) \<and>
         (prev (h ! v) = [] \<longrightarrow> backward lib v h = Some (h[v := (h ! v)\<lparr>grad := 1\<rparr>]))"
proof -
  from backward_returns[OF assms(2,3)] obtain h' where b: "backward lib v h = Some h'" ..
  have "\<forall>x. \<not> reachable h v x \<longrightarrow> h' ! x = h ! x"
    using backward_unreachable[OF assms b] by blast
  with b backward_leaf[OF assms(1,3)] show ?thesis by blast
qed

theorem backward_touches_reachable_only_witness:
  "rules_ok shared_operand \<and> closed shared_operand \<and> 2 < length shared_operand \<and>
   \<not> reachable shared_operand 2 1 \<and>
   map_option (\<lambda>h'. h' ! 1) (backward real_libm 2 shared_operand) = Some (shared_operand ! 1) \<and>
   prev (shared_operand ! 1) = [] \<and>
   backward real_libm 1 shared_operand =
     Some (shared_operand[1 := (shared_operand ! 1)\<lparr>grad := 1\<rparr>])"
proof -
  have o: "ordered shared_operand" and 1: "rules_ok shared_operand" "closed shared_operand"
    and l: "2 < length shared_operand" "1 < length shared_operand"
    and p: "prev (shared_operand ! 1) = []"
    by (simp_all add: ordered_def closed_def rules_ok_def installed_def shared_operand_def engine_defs)
  note d = ordered_dag[OF o]
  have n: "\<not> reachable shared_operand 2 1"
    using topo_order_props(2)[OF shared_operand_order d l(1)] by auto
  from backward_touches_reachable_only[OF 1 l(1), of real_libm] n
  have a: "map_option (\<lambda>h'. h' ! 1) (backward real_libm 2 shared_operand) = Some (shared_operand ! 1)"
    by auto
  from backward_touches_reachable_only[OF 1 l(2), of real_libm] p
  have b: "backward real_libm 1 shared_operand =
     Some (shared_operand[1 := (shared_operand ! 1)\<lparr>grad := 1\<rparr>])"
    by simp
  from 1 l(1) n a p b show ?thesis by simp
qed

text \<open>
  Claim C10. \<^verbatim>\<open>backward\<close> returns on every closed store, acyclic or not: the traversal
  returns within the depth that \<^verbatim>\<open>backward\<close> allows (and returns the same with any
  greater depth), it enters every node at most once, and the replay that follows is a loop
  over the finished order.
\<close>

theorem backward_terminates:
  assumes "closed h" and "v < length h"
  shows "\<exists>visited topo h'.
           (\<forall>k. build_topo (Suc (length h) + k) h v ([], []) = Some (visited, topo)) \<and>
           distinct visited \<and> distinct topo \<and> set visited = set topo \<and>
           backward lib v h = Some h'"
proof -
  from topo_order_returns[OF assms] obtain visited topo where
    b: "build_topo (Suc (length h)) h v ([], []) = Some (visited, topo)"
    by (auto simp: topo_order_def)
  from build_topo_extends(1)[OF b] have "distinct visited" "distinct topo" "set visited = set topo"
    by (auto simp: extends_def)
  moreover from backward_returns[OF assms] obtain h' where "backward lib v h = Some h'" ..
  moreover have "\<forall>k. build_topo (Suc (length h) + k) h v ([], []) = Some (visited, topo)"
    using build_topo_fuel_add[OF b] by blast
  ultimately show ?thesis by blast
qed

theorem backward_terminates_witness:
  "closed two_cycle \<and> 0 < length two_cycle \<and> \<not> dag two_cycle \<and>
   build_topo (Suc (length two_cycle)) two_cycle 0 ([], []) = Some ([0, 1], [1, 0]) \<and>
   map_option (map grad) (backward real_libm 0 two_cycle) = Some [1, 0]"
proof -
  have c: "closed two_cycle" and l: "0 < length two_cycle"
    by (simp_all add: closed_def two_cycle_def engine_defs)
  have "reachable two_cycle 1 0"
    using reachable_parent[OF reachable_self, of 0 two_cycle 1]
    by (simp add: two_cycle_def Value_init_def)
  moreover have "1 \<in> set (prev (two_cycle ! 0))" by (simp add: two_cycle_def Value_init_def)
  ultimately have n: "\<not> dag two_cycle" using dag_no_cycle[OF _ l] by blast
  from backward_terminates[OF c l, of real_libm] show ?thesis
    using c l n by (simp add: two_cycle_def engine_defs)
qed

end
